theory Spec2Isabelle
  imports Main "HOL-Library.Sublist"
begin

section \<open>Data model (treeViewProvider: FileItem, PRBucket, MultiPRTreeProvider)\<close>

text \<open>
  Strings are lists of 8-bit characters; the source's strings are sequences of UTF-16
  code units. No definition below looks inside a character except \<open>trim\<close> and the
  branch-name sanitiser, which are written for code units below 256.

  \<open>FileItem\<close>: the interface of the same name. \<open>size\<close> and \<open>lastModified\<close> are
  display-only metadata; they are kept as optional numbers (\<open>fsize\<close>, \<open>lastModified\<close>).
\<close>

record FileItem =
  path :: string
  status :: string
  label :: string
  isDirectory :: "bool option"
  fsize :: "nat option"
  lastModified :: "nat option"
  gitStatus :: "string option"

text \<open>
  \<open>PRBucket\<close>: the interface of the same name. The source compares and mutates buckets
  as objects (\<open>this.buckets.indexOf(bucket)\<close>, \<open>bucket.files.push(file)\<close>), so every
  bucket object carries its identity \<open>oid\<close>; two buckets with equal fields are still
  two objects.
\<close>

record PRBucket =
  oid :: nat
  name :: string
  title :: string
  description :: string
  files :: "FileItem list"
  branchName :: "string option"
  dependsOn :: "string option"
  order :: "nat option"

text \<open>
  The provider's mutable fields. \<open>buckets\<close> and \<open>gitChanges\<close> are the arrays of the
  class. \<open>detached\<close> holds the bucket objects that were spliced out of \<open>buckets\<close> by
  \<open>deleteBucket\<close>: the caller may still hold a reference to such an object and pass it
  to a later call. \<open>nextOid\<close> is the identity of the next object literal.
\<close>

record provider =
  buckets :: "PRBucket list"
  gitChanges :: "FileItem list"
  detached :: "PRBucket list"
  nextOid :: nat

definition initialProvider :: provider where
  "initialProvider = \<lparr>buckets = [], gitChanges = [], detached = [], nextOid = 0\<rparr>"

subsection \<open>Array helpers\<close>

text \<open>\<open>Array.prototype.findIndex\<close>; \<open>None\<close> stands for the result -1.\<close>

fun findIndex :: "('a \<Rightarrow> bool) \<Rightarrow> 'a list \<Rightarrow> nat option" where
  "findIndex p [] = None"
| "findIndex p (x # xs) =
     (if p x then Some 0 else map_option Suc (findIndex p xs))"

text \<open>\<open>xs.splice(i, 1)\<close> for an index inside the array.\<close>

definition splice1 :: "nat \<Rightarrow> 'a list \<Rightarrow> 'a list" where
  "splice1 i xs = take i xs @ drop (Suc i) xs"

text \<open>
  The idiom \<open>const i = xs.findIndex(f => f.path === p); if (i > -1) xs.splice(i, 1)\<close>
  of \<open>moveFileToBucket\<close> and \<open>moveFileToGitChanges\<close>.
\<close>

definition removePath :: "string \<Rightarrow> FileItem list \<Rightarrow> FileItem list" where
  "removePath p fs =
     (case findIndex (\<lambda>f. path f = p) fs of None \<Rightarrow> fs | Some i \<Rightarrow> splice1 i fs)"

text \<open>\<open>fs.find(f => f.path === p)\<close> used as a truth value.\<close>

definition hasPath :: "string \<Rightarrow> FileItem list \<Rightarrow> bool" where
  "hasPath p fs = (find (\<lambda>f. path f = p) fs \<noteq> None)"

subsection \<open>Bucket store operations\<close>

text \<open>\<open>createBucket(name, title, description)\<close>: pushes a new object, no check at all.\<close>

definition createBucket :: "string \<Rightarrow> string \<Rightarrow> string \<Rightarrow> provider \<Rightarrow> provider" where
  "createBucket n t d s =
     s\<lparr>buckets := buckets s @
          [\<lparr>oid = nextOid s, name = n, title = t, description = d, files = [],
            branchName = None, dependsOn = None, order = None\<rparr>],
       nextOid := Suc (nextOid s)\<rparr>"

text \<open>
  \<open>deleteBucket(bucket)\<close>: \<open>indexOf\<close> compares object identity. Each file of the bucket
  goes back to \<open>gitChanges\<close> unless a file with the same path is already there.
\<close>

definition giveBack :: "FileItem list \<Rightarrow> FileItem \<Rightarrow> FileItem list" where
  "giveBack g f = (if hasPath (path f) g then g else g @ [f])"

definition deleteBucket :: "nat \<Rightarrow> provider \<Rightarrow> provider" where
  "deleteBucket r s =
     (case findIndex (\<lambda>b. oid b = r) (buckets s) of
        None \<Rightarrow> s
      | Some i \<Rightarrow>
          s\<lparr>gitChanges := foldl giveBack (gitChanges s) (files (buckets s ! i)),
            buckets := splice1 i (buckets s),
            detached := detached s @ [buckets s ! i]\<rparr>)"

text \<open>The bucket object a reference denotes: a live bucket or a detached one.\<close>

definition deref :: "provider \<Rightarrow> nat \<Rightarrow> PRBucket option" where
  "deref s r = find (\<lambda>b. oid b = r) (buckets s @ detached s)"

definition pushFile :: "nat \<Rightarrow> FileItem \<Rightarrow> PRBucket \<Rightarrow> PRBucket" where
  "pushFile r f b = (if oid b = r then b\<lparr>files := files b @ [f]\<rparr> else b)"

definition dropFile :: "string \<Rightarrow> PRBucket \<Rightarrow> PRBucket" where
  "dropFile p b = b\<lparr>files := removePath p (files b)\<rparr>"

text \<open>
  \<open>moveFileToBucket(file, bucket)\<close>, with the boolean it returns. A reference to no
  object cannot be written in the source; the model leaves the state alone there.
\<close>

definition moveFileToBucket :: "FileItem \<Rightarrow> nat \<Rightarrow> provider \<Rightarrow> bool \<times> provider" where
  "moveFileToBucket f r s =
     (case deref s r of
        None \<Rightarrow> (False, s)
      | Some b \<Rightarrow>
          if hasPath (path f) (files b) then (False, s)
          else (True,
            s\<lparr>gitChanges := removePath (path f) (gitChanges s),
              buckets := map (pushFile r f) (map (dropFile (path f)) (buckets s)),
              detached := map (pushFile r f) (detached s)\<rparr>))"

text \<open>\<open>moveFileToGitChanges(file)\<close>, with the boolean it returns (\<open>removed\<close>).\<close>

definition moveFileToGitChanges :: "FileItem \<Rightarrow> provider \<Rightarrow> bool \<times> provider" where
  "moveFileToGitChanges f s =
     (if hasPath (path f) (gitChanges s) then (False, s)
      else
        let removed = list_ex (\<lambda>b. hasPath (path f) (files b)) (buckets s);
            bs = map (dropFile (path f)) (buckets s)
        in (removed,
            s\<lparr>buckets := bs,
              gitChanges := (if removed then gitChanges s @ [f] else gitChanges s)\<rparr>))"

subsection \<open>The create-bucket command (extension.ts, multiPR.createBucket)\<close>

text \<open>
  \<open>String.prototype.trim\<close> on code units below 256: TAB, LF, VT, FF, CR, SP and NBSP
  are white space.
\<close>

definition isWhiteSpace :: "char \<Rightarrow> bool" where
  "isWhiteSpace c = (of_char c \<in> {9, 10, 11, 12, 13, 32, 160 :: nat})"

definition trim :: "string \<Rightarrow> string" where
  "trim s = rev (dropWhile isWhiteSpace (rev (dropWhile isWhiteSpace s)))"

text \<open>The \<open>validateInput\<close> callback of the bucket-name input box.\<close>

definition validateBucketName :: "provider \<Rightarrow> string \<Rightarrow> string option" where
  "validateBucketName s v =
     (if v = [] \<or> length (trim v) = 0 then Some ''Bucket name cannot be empty''
      else if list_ex (\<lambda>b. name b = trim v) (buckets s)
        then Some ''Bucket with this name already exists''
      else None)"

definition validateTitle :: "string \<Rightarrow> string option" where
  "validateTitle v =
     (if v = [] \<or> length (trim v) = 0 then Some ''PR title cannot be empty'' else None)"

text \<open>
  What the command did: an input box does not accept a value its validator rejects
  (\<open>Rejected\<close> with the validator's message), the user may dismiss a box
  (\<open>Cancelled\<close>: \<open>showInputBox\<close> yields \<open>undefined\<close>), or the bucket is created.
\<close>

datatype commandOutcome = Rejected string | Cancelled | Created string

definition createBucketCommand ::
  "string option \<Rightarrow> string option \<Rightarrow> string option \<Rightarrow> provider \<Rightarrow> commandOutcome \<times> provider" where
  "createBucketCommand nameInput titleInput descInput s =
     (case nameInput of
        None \<Rightarrow> (Cancelled, s)
      | Some bucketName \<Rightarrow>
         (case validateBucketName s bucketName of
            Some msg \<Rightarrow> (Rejected msg, s)
          | None \<Rightarrow>
             if bucketName = [] then (Cancelled, s)
             else
              (case titleInput of
                 None \<Rightarrow> (Cancelled, s)
               | Some t \<Rightarrow>
                  (case validateTitle t of
                     Some msg \<Rightarrow> (Rejected msg, s)
                   | None \<Rightarrow>
                      if t = [] then (Cancelled, s)
                      else
                        (Created (trim bucketName),
                         createBucket (trim bucketName) (trim t)
                           (case descInput of None \<Rightarrow> [] | Some d \<Rightarrow> trim d) s)))))"

section \<open>Operation sequences on the store\<close>

datatype storeOp =
    CreateBucket string string string
  | MoveFileToBucket FileItem nat
  | MoveFileToGitChanges FileItem
  | DeleteBucket nat

fun applyOp :: "storeOp \<Rightarrow> provider \<Rightarrow> provider" where
  "applyOp (CreateBucket n t d) s = createBucket n t d s"
| "applyOp (MoveFileToBucket f r) s = snd (moveFileToBucket f r s)"
| "applyOp (MoveFileToGitChanges f) s = snd (moveFileToGitChanges f s)"
| "applyOp (DeleteBucket r) s = deleteBucket r s"

definition runOps :: "storeOp list \<Rightarrow> provider \<Rightarrow> provider" where
  "runOps ops s = foldl (\<lambda>s' x. applyOp x s') s ops"

text \<open>The containers of file references: the pool and every live bucket's file array.\<close>

definition containers :: "provider \<Rightarrow> FileItem list list" where
  "containers s = gitChanges s # map files (buckets s)"

text \<open>In how many containers a path occurs.\<close>

definition holders :: "string \<Rightarrow> provider \<Rightarrow> nat" where
  "holders p s = length (filter (\<lambda>c. hasPath p c) (containers s))"

text \<open>
  No path occurs twice in the store (neither in two containers nor twice in one), and
  no two bucket objects share an identity, all identities being below \<open>nextOid\<close>.
\<close>

definition allPaths :: "provider \<Rightarrow> string list" where
  "allPaths s = concat (map (map path) (containers s))"

definition storeOk :: "provider \<Rightarrow> bool" where
  "storeOk s =
     (distinct (allPaths s) \<and> distinct (map oid (buckets s @ detached s)) \<and>
      list_all (\<lambda>b. oid b < nextOid s) (buckets s @ detached s))"

section \<open>The version-control adapter (gitOperations.ts, class GitManager)\<close>

subsection \<open>The outside world\<close>

text \<open>
  Everything \<open>GitManager\<close> does to the outside goes through \<open>execSync\<close> and the
  \<open>fs\<close> module. An \<open>action\<close> is one such call; \<open>commandLine\<close> gives the text the
  source passes to \<open>execSync\<close>.
\<close>

datatype action =
    GitReset
  | GitRm string
  | GitAdd string
  | GitCheckout string
  | GitPullFfOnly
  | GitCheckoutNew string
  | GitCommitFile string
  | GitPush string
  | GitBranchShowCurrent
  | GitRemoteUrl
  | GhPrCreate string string string string
  | WriteFile string string
  | Unlink string

fun commandLine :: "action \<Rightarrow> string" where
  "commandLine GitReset = ''git reset''"
| "commandLine (GitRm p) = ''git rm -f --ignore-unmatch \"'' @ p @ ''\"''"
| "commandLine (GitAdd p) = ''git add \"'' @ p @ ''\"''"
| "commandLine (GitCheckout b) = ''git checkout \"'' @ b @ ''\"''"
| "commandLine GitPullFfOnly = ''git pull --ff-only''"
| "commandLine (GitCheckoutNew b) = ''git checkout -b \"'' @ b @ ''\"''"
| "commandLine (GitCommitFile t) = ''git commit -F \"'' @ t @ ''\"''"
| "commandLine (GitPush b) = ''git push -u origin \"'' @ b @ ''\"''"
| "commandLine GitBranchShowCurrent = ''git branch --show-current''"
| "commandLine GitRemoteUrl = ''git config --get remote.origin.url''"
| "commandLine (GhPrCreate t d base br) =
     ''gh pr create --title \"'' @ t @ ''\" --body \"'' @ d @ ''\" --base \"'' @ base @
     ''\" --head \"'' @ br @ ''\"''"
| "commandLine (WriteFile t m) = ''fs.writeFileSync '' @ t"
| "commandLine (Unlink t) = ''fs.unlinkSync '' @ t"

text \<open>
  The world is an oracle: given the actions performed so far and the next action, \<open>run\<close>
  says whether the action throws (\<open>Inl\<close> the error's message) or returns (\<open>Inr\<close> its
  standard output). \<open>now\<close> is \<open>Date.now()\<close> and \<open>pathJoin\<close> is Node's \<open>path.join\<close>.
  No assumption is made about any of the three.
\<close>

record world =
  run :: "action list \<Rightarrow> action \<Rightarrow> string + string"
  now :: "action list \<Rightarrow> nat"
  pathJoin :: "string list \<Rightarrow> string"

text \<open>One call: its result, and the log with the action appended.\<close>

definition execSync :: "world \<Rightarrow> action list \<Rightarrow> action \<Rightarrow> (string + string) \<times> action list" where
  "execSync w l a = (run w l a, l @ [a])"

text \<open>The text of a caught \<open>Error\<close> in a template literal (\<open>`${error}`\<close>, \<open>String(error)\<close>).\<close>

definition errorString :: "string \<Rightarrow> string" where
  "errorString m = ''Error: '' @ m"

datatype repoKind = Github | Bitbucket | Unknown

record GitManager =
  workspaceRoot :: string
  repoType :: repoKind

subsection \<open>String helpers of the JavaScript runtime\<close>

fun startsWith :: "string \<Rightarrow> string \<Rightarrow> bool" where
  "startsWith s [] = True"
| "startsWith [] (p # ps) = False"
| "startsWith (c # cs) (p # ps) = (c = p \<and> startsWith cs ps)"

fun includesStr :: "string \<Rightarrow> string \<Rightarrow> bool" where
  "includesStr [] p = (p = [])"
| "includesStr (c # cs) p = (startsWith (c # cs) p \<or> includesStr cs p)"

text \<open>\<open>s.replace(p, r)\<close> with a string pattern: the first occurrence only.\<close>

fun replaceFirst :: "string \<Rightarrow> string \<Rightarrow> string \<Rightarrow> string" where
  "replaceFirst [] p r = (if p = [] then r else [])"
| "replaceFirst (c # cs) p r =
     (if startsWith (c # cs) p then r @ drop (length p) (c # cs)
      else c # replaceFirst cs p r)"

text \<open>\<open>xs.join('\n')\<close>.\<close>

fun joinLines :: "string list \<Rightarrow> string" where
  "joinLines [] = []"
| "joinLines [x] = x"
| "joinLines (x # y # ys) = x @ [CHR 0x0A] @ joinLines (y # ys)"

text \<open>\<open>n.toString()\<close> for a non-negative integer, and \<open>.slice(-6)\<close>.\<close>

definition digitChar :: "nat \<Rightarrow> char" where
  "digitChar d = char_of (48 + d)"

fun toDecimal :: "nat \<Rightarrow> string" where
  "toDecimal n = (if n < 10 then [digitChar n] else toDecimal (n div 10) @ [digitChar (n mod 10)])"

definition sliceLast6 :: "string \<Rightarrow> string" where
  "sliceLast6 s = drop (length s - 6) s"

text \<open>
  The branch-name sanitiser of \<open>createBranchForBucket\<close>, for code units below 256:
  \<open>toLowerCase\<close>, then \<open>[^a-z0-9\s]\<close> removed, then every run of white space replaced
  by one dash, then leading and trailing dashes removed, then \<open>substring(0, 40)\<close>.
  (A code unit from 128 to 255 is removed by the second step whatever its lower case is.)
\<close>

definition toLowerAscii :: "char \<Rightarrow> char" where
  "toLowerAscii c =
     (if 65 \<le> (of_char c :: nat) \<and> (of_char c :: nat) \<le> 90 then char_of (of_char c + 32 :: nat) else c)"

definition isLowerAlnum :: "char \<Rightarrow> bool" where
  "isLowerAlnum c =
     ((97 \<le> (of_char c :: nat) \<and> (of_char c :: nat) \<le> 122) \<or>
      (48 \<le> (of_char c :: nat) \<and> (of_char c :: nat) \<le> 57))"

fun collapseWs :: "bool \<Rightarrow> string \<Rightarrow> string" where
  "collapseWs inRun [] = []"
| "collapseWs inRun (c # cs) =
     (if isWhiteSpace c
      then (if inRun then collapseWs True cs else CHR ''-'' # collapseWs True cs)
      else c # collapseWs False cs)"

definition stripDashes :: "string \<Rightarrow> string" where
  "stripDashes s =
     rev (dropWhile (\<lambda>c. c = CHR ''-'') (rev (dropWhile (\<lambda>c. c = CHR ''-'') s)))"

definition sanitize :: "string \<Rightarrow> string" where
  "sanitize bucketName =
     take 40 (stripDashes (collapseWs False
       (filter (\<lambda>c. isLowerAlnum c \<or> isWhiteSpace c) (map toLowerAscii bucketName))))"

text \<open>
  The first match of \<open>/https:\/\/github\.com\/[^\s]+/\<close> in the output of
  \<open>gh pr create\<close>.
\<close>

fun urlMatch :: "string \<Rightarrow> string option" where
  "urlMatch [] = None"
| "urlMatch (c # cs) =
     (if startsWith (c # cs) ''https://github.com/'' \<and>
         takeWhile (\<lambda>x. \<not> isWhiteSpace x) (drop 19 (c # cs)) \<noteq> []
      then Some (''https://github.com/'' @ takeWhile (\<lambda>x. \<not> isWhiteSpace x) (drop 19 (c # cs)))
      else urlMatch cs)"

text \<open>
  \<open>encodeURIComponent\<close> for code units below 256: the unreserved characters stay, every
  other one becomes the percent-escaped bytes of its UTF-8 form.
\<close>

definition hexDigit :: "nat \<Rightarrow> char" where
  "hexDigit d = (if d < 10 then char_of (48 + d) else char_of (55 + d))"

definition percentByte :: "nat \<Rightarrow> string" where
  "percentByte b = [CHR ''%'', hexDigit (b div 16), hexDigit (b mod 16)]"

definition isUnreserved :: "char \<Rightarrow> bool" where
  "isUnreserved c =
     (isLowerAlnum c \<or> (65 \<le> (of_char c :: nat) \<and> (of_char c :: nat) \<le> 90) \<or>
      c \<in> set ''-_.!~*'()'')"

definition encodeChar :: "char \<Rightarrow> string" where
  "encodeChar c =
     (if isUnreserved c then [c]
      else if (of_char c :: nat) < 128 then percentByte (of_char c)
      else percentByte (192 + of_char c div 64) @ percentByte (128 + of_char c mod 64))"

definition encodeURIComponent :: "string \<Rightarrow> string" where
  "encodeURIComponent s = concat (map encodeChar s)"

subsection \<open>The methods\<close>

text \<open>
  Every method takes the log of actions so far and returns its result with the new log.
  \<open>Inl m\<close> is a thrown \<open>Error\<close> with message \<open>m\<close>.
\<close>

definition getCurrentBranch :: "GitManager \<Rightarrow> world \<Rightarrow> action list \<Rightarrow> (string + string) \<times> action list" where
  "getCurrentBranch gm w l =
     (case execSync w l GitBranchShowCurrent of
        (Inl e, l') \<Rightarrow> (Inl (''Failed to get current branch: '' @ errorString e), l')
      | (Inr out, l') \<Rightarrow> (Inr (trim out), l'))"

definition repositoryUrlOf :: "string \<Rightarrow> string" where
  "repositoryUrlOf remoteUrl =
     (if startsWith remoteUrl ''git@github.com:''
        then replaceFirst (replaceFirst remoteUrl ''git@github.com:'' ''https://github.com/'') ''.git'' []
      else if startsWith remoteUrl ''git@bitbucket.org:''
        then replaceFirst (replaceFirst remoteUrl ''git@bitbucket.org:'' ''https://bitbucket.org/'') ''.git'' []
      else if includesStr remoteUrl ''github.com'' then replaceFirst remoteUrl ''.git'' []
      else if includesStr remoteUrl ''bitbucket.org'' then replaceFirst remoteUrl ''.git'' []
      else remoteUrl)"

definition getRepositoryUrl :: "GitManager \<Rightarrow> world \<Rightarrow> action list \<Rightarrow> (string + string) \<times> action list" where
  "getRepositoryUrl gm w l =
     (case execSync w l GitRemoteUrl of
        (Inl e, l') \<Rightarrow> (Inl (''Failed to get repository URL: '' @ errorString e), l')
      | (Inr out, l') \<Rightarrow> (Inr (repositoryUrlOf (trim out)), l'))"

text \<open>\<open>file.status === 'Deleted' || file.gitStatus === 'D'\<close>.\<close>

definition isDeletion :: "FileItem \<Rightarrow> bool" where
  "isDeletion f = (status f = ''Deleted'' \<or> gitStatus f = Some ''D'')"

text \<open>
  The loop of \<open>stageFilesForBucket\<close>: a failing \<open>git rm\<close> is swallowed by the inner
  \<open>try\<close>, a failing \<open>git add\<close> leaves the loop.
\<close>

fun stageEach :: "world \<Rightarrow> FileItem list \<Rightarrow> action list \<Rightarrow> (string + unit) \<times> action list" where
  "stageEach w [] l = (Inr (), l)"
| "stageEach w (f # fs) l =
     (if isDeletion f then stageEach w fs (snd (execSync w l (GitRm (path f))))
      else
        (case execSync w l (GitAdd (path f)) of
           (Inl e, l') \<Rightarrow> (Inl e, l')
         | (Inr out, l') \<Rightarrow> stageEach w fs l'))"

definition stageFilesForBucket :: "GitManager \<Rightarrow> world \<Rightarrow> PRBucket \<Rightarrow> action list \<Rightarrow> (string + unit) \<times> action list" where
  "stageFilesForBucket gm w bucket l =
     (if workspaceRoot gm = [] \<or> length (files bucket) = 0 then (Inr (), l)
      else
        (case execSync w l GitReset of
           (Inl e, l') \<Rightarrow>
             (Inl (''Failed to stage files for '' @ name bucket @ '': '' @ errorString e), l')
         | (Inr out, l') \<Rightarrow>
             (case stageEach w (files bucket) l' of
                (Inl e, l'') \<Rightarrow>
                  (Inl (''Failed to stage files for '' @ name bucket @ '': '' @ errorString e), l'')
              | (Inr u, l'') \<Rightarrow> (Inr (), l''))))"

definition createBranchForBucket ::
  "GitManager \<Rightarrow> world \<Rightarrow> string \<Rightarrow> string option \<Rightarrow> action list \<Rightarrow> (string + string) \<times> action list" where
  "createBranchForBucket gm w bucketName baseBranch l =
     (if workspaceRoot gm = [] then (Inl ''No workspace root found'', l)
      else
        let sanitized = sanitize bucketName;
            timestamp = sliceLast6 (toDecimal (now w l));
            branch = ''feature/'' @ sanitized @ ''-'' @ timestamp;
            l1 = (case baseBranch of
                    None \<Rightarrow> l
                  | Some b \<Rightarrow>
                      if b \<noteq> [] \<and> length (trim b) > 0 then
                        (case execSync w l (GitCheckout b) of
                           (Inl e, l') \<Rightarrow> l'
                         | (Inr out, l') \<Rightarrow> snd (execSync w l' GitPullFfOnly))
                      else l)
        in (case execSync w l1 (GitCheckoutNew branch) of
              (Inl e, l2) \<Rightarrow>
                (Inl (''Failed to create branch for '' @ bucketName @ '': '' @ errorString e), l2)
            | (Inr out, l2) \<Rightarrow> (Inr branch, l2)))"

definition commitMessage :: "PRBucket \<Rightarrow> string" where
  "commitMessage bucket =
     title bucket @ [CHR 0x0A, CHR 0x0A] @
     (if description bucket \<noteq> [] then description bucket @ [CHR 0x0A, CHR 0x0A] else []) @
     ''Files modified:'' @ [CHR 0x0A] @
     joinLines (map (\<lambda>f. ''- '' @ path f) (files bucket))"

definition commitBucket :: "GitManager \<Rightarrow> world \<Rightarrow> PRBucket \<Rightarrow> action list \<Rightarrow> (string + unit) \<times> action list" where
  "commitBucket gm w bucket l =
     (if workspaceRoot gm = [] then (Inr (), l)
      else
        let tempFile = pathJoin w [workspaceRoot gm, ''.git'', ''COMMIT_EDITMSG_TEMP'']
        in (case execSync w l (WriteFile tempFile (commitMessage bucket)) of
              (Inl e, l1) \<Rightarrow> (Inl (''Failed to commit '' @ name bucket @ '': '' @ errorString e), l1)
            | (Inr out, l1) \<Rightarrow>
               (case execSync w l1 (GitCommitFile tempFile) of
                  (Inl e, l2) \<Rightarrow>
                    (Inl (''Failed to commit '' @ name bucket @ '': '' @ errorString e), l2)
                | (Inr out2, l2) \<Rightarrow> (Inr (), snd (execSync w l2 (Unlink tempFile))))))"

definition pushBranch :: "GitManager \<Rightarrow> world \<Rightarrow> string \<Rightarrow> action list \<Rightarrow> (string + unit) \<times> action list" where
  "pushBranch gm w branch l =
     (if workspaceRoot gm = [] then (Inr (), l)
      else
        (case execSync w l (GitPush branch) of
           (Inl e, l') \<Rightarrow> (Inl (''Failed to push branch '' @ branch @ '': '' @ errorString e), l')
         | (Inr out, l') \<Rightarrow> (Inr (), l')))"

definition switchToBranch :: "GitManager \<Rightarrow> world \<Rightarrow> string \<Rightarrow> action list \<Rightarrow> (string + unit) \<times> action list" where
  "switchToBranch gm w branch l =
     (if workspaceRoot gm = [] then (Inr (), l)
      else
        (case execSync w l (GitCheckout branch) of
           (Inl e, l') \<Rightarrow> (Inl (''Failed to switch to branch '' @ branch @ '': '' @ errorString e), l')
         | (Inr out, l') \<Rightarrow> (Inr (), l')))"

definition createGitHubPR ::
  "GitManager \<Rightarrow> world \<Rightarrow> PRBucket \<Rightarrow> string \<Rightarrow> string \<Rightarrow> action list \<Rightarrow> (string + string) \<times> action list" where
  "createGitHubPR gm w bucket branch baseBranch l =
     (case execSync w l (GhPrCreate (title bucket) (description bucket) baseBranch branch) of
        (Inl e, l1) \<Rightarrow> (Inl (''Failed to create GitHub PR: '' @ errorString e), l1)
      | (Inr out, l1) \<Rightarrow>
         (case urlMatch out of
            Some u \<Rightarrow> (Inr u, l1)
          | None \<Rightarrow>
             (case getRepositoryUrl gm w l1 of
                (Inl e, l2) \<Rightarrow> (Inl (''Failed to create GitHub PR: '' @ errorString e), l2)
              | (Inr repoUrl, l2) \<Rightarrow> (Inr (repoUrl @ ''/pulls''), l2))))"

definition createBitbucketPR ::
  "GitManager \<Rightarrow> world \<Rightarrow> PRBucket \<Rightarrow> string \<Rightarrow> string \<Rightarrow> action list \<Rightarrow> (string + string) \<times> action list" where
  "createBitbucketPR gm w bucket branch baseBranch l =
     (case getRepositoryUrl gm w l of
        (Inl e, l1) \<Rightarrow> (Inl (''Failed to create Bitbucket PR URL: '' @ errorString e), l1)
      | (Inr repoUrl, l1) \<Rightarrow>
         (Inr (repoUrl @ ''/pull-requests/new?source='' @ encodeURIComponent branch @
               ''&dest='' @ encodeURIComponent baseBranch @
               ''&title='' @ encodeURIComponent (title bucket) @
               ''&description='' @ encodeURIComponent (description bucket)), l1))"

definition createPRWithCLI ::
  "GitManager \<Rightarrow> world \<Rightarrow> PRBucket \<Rightarrow> string \<Rightarrow> action list \<Rightarrow> (string + string) \<times> action list" where
  "createPRWithCLI gm w bucket baseBranch l =
     (case (if workspaceRoot gm = [] then None
            else (case branchName bucket of None \<Rightarrow> None
                  | Some br \<Rightarrow> if br = [] then None else Some br)) of
        None \<Rightarrow> (Inl ''Invalid bucket or branch name'', l)
      | Some br \<Rightarrow>
         (case repoType gm of
            Github \<Rightarrow> createGitHubPR gm w bucket br baseBranch l
          | Bitbucket \<Rightarrow> createBitbucketPR gm w bucket br baseBranch l
          | Unknown \<Rightarrow> (Inl ''Unsupported repository type for PR creation'', l)))"

declare toDecimal.simps [simp del]

section \<open>The orchestrator (extension.ts, command multiPR.processAll)\<close>

record config =
  useGitHubCLI :: bool
  defaultBaseBranch :: string

text \<open>The objects pushed onto \<open>results\<close>.\<close>

record ProcessingResult =
  bucketName :: string
  resultBranch :: string
  url :: "string option"
  success :: bool
  manual :: "bool option"
  error :: "string option"

text \<open>
  \<open>bucketByName[n]\<close>, where \<open>bucketByName = Object.fromEntries(buckets.map(b => [b.name, b]))\<close>:
  a later bucket of the same name overwrites an earlier one. (A name that is no key but a
  property of \<open>Object.prototype\<close> yields an object without \<open>branchName\<close>, which the
  expression below treats like a missing key.)
\<close>

definition bucketByName :: "PRBucket list \<Rightarrow> string \<Rightarrow> PRBucket option" where
  "bucketByName bs n = find (\<lambda>b. name b = n) (rev bs)"

text \<open>
  \<open>bucket.dependsOn ? (bucketByName[bucket.dependsOn]?.branchName || defaultBaseBranch)
  : defaultBaseBranch\<close>: an undefined or empty \<open>dependsOn\<close> is falsy, and so is an
  undefined or empty \<open>branchName\<close>.
\<close>

definition baseBranchFor :: "config \<Rightarrow> PRBucket list \<Rightarrow> PRBucket \<Rightarrow> string" where
  "baseBranchFor cfg bs bucket =
     (case dependsOn bucket of
        None \<Rightarrow> defaultBaseBranch cfg
      | Some d \<Rightarrow>
          if d = [] then defaultBaseBranch cfg
          else
            (case bucketByName bs d of
               None \<Rightarrow> defaultBaseBranch cfg
             | Some a \<Rightarrow>
                 (case branchName a of
                    None \<Rightarrow> defaultBaseBranch cfg
                  | Some br \<Rightarrow> if br = [] then defaultBaseBranch cfg else br)))"

text \<open>
  The state of the \<open>for (const bucket of buckets)\<close> loop: the bucket objects (the loop
  assigns \<open>bucket.branchName\<close>, and \<open>bucketByName\<close> holds the same objects), the
  \<open>results\<close> array and the log of actions.
\<close>

record runState =
  rbuckets :: "PRBucket list"
  results :: "ProcessingResult list"
  rlog :: "action list"

text \<open>
  The body of the loop for the bucket at index \<open>k\<close>. \<open>Inl (m, st)\<close>: an \<open>Error\<close> with
  message \<open>m\<close> left the loop, in state \<open>st\<close>. Only the call of \<open>createPRWithCLI\<close> sits
  in a \<open>try\<close> of its own.
\<close>

definition processBucket ::
  "GitManager \<Rightarrow> world \<Rightarrow> config \<Rightarrow> nat \<Rightarrow> runState \<Rightarrow> (string \<times> runState) + runState" where
  "processBucket gm w cfg k st =
     (let bucket = rbuckets st ! k;
          baseBranch = baseBranchFor cfg (rbuckets st) bucket
      in case createBranchForBucket gm w (name bucket) (Some baseBranch) (rlog st) of
           (Inl e, l1) \<Rightarrow> Inl (e, st\<lparr>rlog := l1\<rparr>)
         | (Inr br, l1) \<Rightarrow>
            (let bucket1 = bucket\<lparr>branchName := Some br\<rparr>;
                 st1 = st\<lparr>rbuckets := (rbuckets st)[k := bucket1]\<rparr>
             in case stageFilesForBucket gm w bucket1 l1 of
                  (Inl e, l2) \<Rightarrow> Inl (e, st1\<lparr>rlog := l2\<rparr>)
                | (Inr u2, l2) \<Rightarrow>
                   (case commitBucket gm w bucket1 l2 of
                      (Inl e, l3) \<Rightarrow> Inl (e, st1\<lparr>rlog := l3\<rparr>)
                    | (Inr u3, l3) \<Rightarrow>
                       (case pushBranch gm w br l3 of
                          (Inl e, l4) \<Rightarrow> Inl (e, st1\<lparr>rlog := l4\<rparr>)
                        | (Inr u4, l4) \<Rightarrow>
                           (if useGitHubCLI cfg \<or> repoType gm = Bitbucket then
                              (case createPRWithCLI gm w bucket1 baseBranch l4 of
                                 (Inr prUrl, l5) \<Rightarrow>
                                   Inr (st1\<lparr>rlog := l5,
                                     results := results st1 @
                                       [\<lparr>bucketName = name bucket1, resultBranch = br,
                                         url = Some prUrl, success = True,
                                         manual = Some (repoType gm = Bitbucket),
                                         error = None\<rparr>]\<rparr>)
                               | (Inl e, l5) \<Rightarrow>
                                   Inr (st1\<lparr>rlog := l5,
                                     results := results st1 @
                                       [\<lparr>bucketName = name bucket1, resultBranch = br,
                                         url = None, success = False, manual = None,
                                         error = Some (errorString e)\<rparr>]\<rparr>))
                            else
                              (case getRepositoryUrl gm w l4 of
                                 (Inl e, l5) \<Rightarrow> Inl (e, st1\<lparr>rlog := l5\<rparr>)
                               | (Inr repoUrl, l5) \<Rightarrow>
                                   Inr (st1\<lparr>rlog := l5,
                                     results := results st1 @
                                       [\<lparr>bucketName = name bucket1, resultBranch = br,
                                         url = Some (repoUrl @ ''/compare/'' @ br),
                                         success = True, manual = Some True,
                                         error = None\<rparr>]\<rparr>)))))))"

text \<open>
  The same body up to and including the push, that is, everything before the
  change-request step: the branch created, the base branch resolved, and the state in
  which \<open>createPRWithCLI\<close> (or, in the manual mode, \<open>getRepositoryUrl\<close>) is called.
\<close>

definition pipelineSteps ::
  "GitManager \<Rightarrow> world \<Rightarrow> config \<Rightarrow> nat \<Rightarrow> runState \<Rightarrow>
   (string \<times> runState) + (string \<times> string \<times> runState)" where
  "pipelineSteps gm w cfg k st =
     (let bucket = rbuckets st ! k;
          baseBranch = baseBranchFor cfg (rbuckets st) bucket
      in case createBranchForBucket gm w (name bucket) (Some baseBranch) (rlog st) of
           (Inl e, l1) \<Rightarrow> Inl (e, st\<lparr>rlog := l1\<rparr>)
         | (Inr br, l1) \<Rightarrow>
            (let bucket1 = bucket\<lparr>branchName := Some br\<rparr>;
                 st1 = st\<lparr>rbuckets := (rbuckets st)[k := bucket1]\<rparr>
             in case stageFilesForBucket gm w bucket1 l1 of
                  (Inl e, l2) \<Rightarrow> Inl (e, st1\<lparr>rlog := l2\<rparr>)
                | (Inr u2, l2) \<Rightarrow>
                   (case commitBucket gm w bucket1 l2 of
                      (Inl e, l3) \<Rightarrow> Inl (e, st1\<lparr>rlog := l3\<rparr>)
                    | (Inr u3, l3) \<Rightarrow>
                       (case pushBranch gm w br l3 of
                          (Inl e, l4) \<Rightarrow> Inl (e, st1\<lparr>rlog := l4\<rparr>)
                        | (Inr u4, l4) \<Rightarrow> Inr (br, baseBranch, st1\<lparr>rlog := l4\<rparr>)))))"

text \<open>The loop, after its first \<open>k\<close> iterations (the buckets at the indices below \<open>k\<close>).\<close>

primrec processLoop ::
  "GitManager \<Rightarrow> world \<Rightarrow> config \<Rightarrow> nat \<Rightarrow> runState \<Rightarrow> (string \<times> runState) + runState" where
  "processLoop gm w cfg 0 st = Inr st"
| "processLoop gm w cfg (Suc k) st =
     (case processLoop gm w cfg k st of
        Inl x \<Rightarrow> Inl x
      | Inr st' \<Rightarrow> processBucket gm w cfg k st')"

text \<open>
  How the callback of \<open>withProgress\<close> ends: the outer \<open>catch\<close> shows
  \<open>Error creating PRs: ${error}\<close> (\<open>Aborted\<close>, with the text of the error), or the
  results are reported; the flag says whether \<open>clearBuckets\<close> was called.
\<close>

datatype runOutcome = Aborted string | Completed "ProcessingResult list" bool

text \<open>
  The \<open>try\<close> block of the callback: the branch that is active is read, the loop runs,
  and \<open>switchToBranch(originalBranch)\<close> follows the loop inside the same \<open>try\<close>.
  The result is the outcome, the bucket objects and the log.
\<close>

definition processAll ::
  "GitManager \<Rightarrow> world \<Rightarrow> config \<Rightarrow> PRBucket list \<Rightarrow> action list \<Rightarrow>
   runOutcome \<times> PRBucket list \<times> action list" where
  "processAll gm w cfg bs l =
     (case getCurrentBranch gm w l of
        (Inl e, l0) \<Rightarrow> (Aborted (errorString e), bs, l0)
      | (Inr originalBranch, l0) \<Rightarrow>
         (case processLoop gm w cfg (length bs) \<lparr>rbuckets = bs, results = [], rlog = l0\<rparr> of
            Inl (e, st) \<Rightarrow> (Aborted (errorString e), rbuckets st, rlog st)
          | Inr st \<Rightarrow>
             (case switchToBranch gm w originalBranch (rlog st) of
                (Inl e, l1) \<Rightarrow> (Aborted (errorString e), rbuckets st, l1)
              | (Inr u, l1) \<Rightarrow>
                 (Completed (results st)
                    (0 < length (filter success (results st))), rbuckets st, l1))))"

section \<open>The dependency resolver (treeViewProvider: updateBucketOrder and friends)\<close>

text \<open>
  \<open>bucket?.dependsOn\<close> used as a condition: the name the bucket depends on, unless
  the field is undefined or the empty string.
\<close>

definition dependency :: "PRBucket \<Rightarrow> string option" where
  "dependency b = (case dependsOn b of None \<Rightarrow> None | Some d \<Rightarrow> if d = [] then None else Some d)"

text \<open>\<open>this.buckets.find(b => b.name === n)\<close>: the first bucket of that name.\<close>

definition findBucket :: "PRBucket list \<Rightarrow> string \<Rightarrow> PRBucket option" where
  "findBucket bs n = find (\<lambda>b. name b = n) bs"

text \<open>
  \<open>const bucket = this.buckets.find(b => b.name === n)\<close> followed by the test
  \<open>bucket?.dependsOn\<close>: the dependency of the first bucket named \<open>n\<close>, if there is
  such a bucket and it has one.
\<close>

definition dependencyOf :: "PRBucket list \<Rightarrow> string \<Rightarrow> string option" where
  "dependencyOf bs n = (case findBucket bs n of None \<Rightarrow> None | Some b \<Rightarrow> dependency b)"

text \<open>
  The three variables the closure \<open>visit\<close> shares with \<open>updateBucketOrder\<close>: the sets
  \<open>visited\<close> and \<open>visiting\<close> and the array \<open>order\<close>.
\<close>

record sortState =
  visited :: "string set"
  visiting :: "string set"
  sorder :: "string list"

text \<open>
  \<open>visit(bucketName)\<close>, with the boolean it returns. On \<open>false\<close> the name stays in
  \<open>visiting\<close>, as in the source (the early \<open>return false\<close> skips the
  \<open>visiting.delete\<close>).
\<close>

function visit :: "PRBucket list \<Rightarrow> string \<Rightarrow> sortState \<Rightarrow> bool \<times> sortState" where
  "visit bs n st =
     (if n \<in> visiting st then (False, st)
      else if n \<in> visited st then (True, st)
      else
        (case dependencyOf bs n of
           None \<Rightarrow>
             (True, st\<lparr>visiting := insert n (visiting st) - {n},
                       visited := insert n (visited st),
                       sorder := sorder st @ [n]\<rparr>)
         | Some d \<Rightarrow>
             (case visit bs d (st\<lparr>visiting := insert n (visiting st)\<rparr>) of
                (False, st') \<Rightarrow> (False, st')
              | (True, st') \<Rightarrow>
                  (True, st'\<lparr>visiting := visiting st' - {n},
                            visited := insert n (visited st'),
                            sorder := sorder st' @ [n]\<rparr>))))"
  by pat_completeness auto
termination
proof (relation "measure (\<lambda>(bs, n, st). card (name ` set bs - visiting st))")
  show "wf (measure (\<lambda>(bs, n, st). card (name ` set bs - visiting st)))" by simp
next
  fix bs :: "PRBucket list" and n :: string and st :: sortState and d :: string
  assume nv: "n \<notin> visiting st"
    and dep: "dependencyOf bs n = Some d"
  from dep obtain b where "findBucket bs n = Some b"
    by (auto simp: dependencyOf_def split: option.splits)
  then have "n \<in> name ` set bs"
    by (auto simp: findBucket_def find_Some_iff)
  with nv have "name ` set bs - insert n (visiting st) \<subset> name ` set bs - visiting st" by auto
  then have "card (name ` set bs - insert n (visiting st)) < card (name ` set bs - visiting st)"
    by (intro psubset_card_mono) auto
  then show "((bs, d, st\<lparr>visiting := insert n (visiting st)\<rparr>), (bs, n, st))
      \<in> measure (\<lambda>(bs, n, st). card (name ` set bs - visiting st))" by simp
qed

declare visit.simps [simp del]

text \<open>
  The loop \<open>for (const bucket of this.buckets)\<close> from index \<open>i\<close> on: \<open>Inl k\<close> when the
  visit started at the bucket at index \<open>k\<close> returned \<open>false\<close>, \<open>Inr\<close> the final state of
  the three variables when the loop ran to its end.
\<close>

function visitFrom :: "PRBucket list \<Rightarrow> nat \<Rightarrow> sortState \<Rightarrow> nat + sortState" where
  "visitFrom bs i st =
     (if i < length bs then
        (if name (bs ! i) \<notin> visited st then
           (case visit bs (name (bs ! i)) st of
              (False, st') \<Rightarrow> Inl i
            | (True, st') \<Rightarrow> visitFrom bs (Suc i) st')
         else visitFrom bs (Suc i) st)
      else Inr st)"
  by pat_completeness auto
termination
  by (relation "measure (\<lambda>(bs, i, st). length bs - i)") auto

declare visitFrom.simps [simp del]

text \<open>
  \<open>order.forEach((bucketName, index) => { find(bucketName).order = index })\<close>, from
  index \<open>i\<close> on.
\<close>

definition setOrder :: "string \<Rightarrow> nat \<Rightarrow> PRBucket list \<Rightarrow> PRBucket list" where
  "setOrder n i bs =
     (case findIndex (\<lambda>b. name b = n) bs of
        None \<Rightarrow> bs
      | Some k \<Rightarrow> bs[k := (bs ! k)\<lparr>order := Some i\<rparr>])"

fun assignOrder :: "string list \<Rightarrow> nat \<Rightarrow> PRBucket list \<Rightarrow> PRBucket list" where
  "assignOrder [] i bs = bs"
| "assignOrder (n # ns) i bs = assignOrder ns (Suc i) (setOrder n i bs)"

definition emptySort :: sortState where
  "emptySort = \<lparr>visited = {}, visiting = {}, sorder = []\<rparr>"

text \<open>The number of buckets that have a dependency: what a restart decreases.\<close>

definition edgeCount :: "PRBucket list \<Rightarrow> nat" where
  "edgeCount bs = length (filter (\<lambda>b. dependency b \<noteq> None) bs)"

text \<open>\<open>bucket.dependsOn = undefined\<close> for the bucket at index \<open>k\<close>.\<close>

definition clearDependency :: "nat \<Rightarrow> PRBucket list \<Rightarrow> PRBucket list" where
  "clearDependency k bs = bs[k := (bs ! k)\<lparr>dependsOn := None\<rparr>]"

subsection \<open>Facts about \<open>visit\<close> that the termination of the restart needs\<close>

lemma visit_True:
  "visit bs n st = (True, st') \<Longrightarrow>
   visiting st' = visiting st \<and> visited st \<subseteq> visited st' \<and> n \<in> visited st'"
proof (induction bs n st arbitrary: st' rule: visit.induct)
  case (1 bs n st)
  show ?case
  proof (cases "n \<in> visiting st \<or> n \<in> visited st")
    case True
    with "1.prems" show ?thesis by (auto simp: visit.simps[of bs n st] split: if_splits)
  next
    case False
    then have nv: "n \<notin> visiting st" "n \<notin> visited st" by auto
    show ?thesis
    proof (cases "dependencyOf bs n")
      case None
      with nv "1.prems" show ?thesis by (auto simp: visit.simps[of bs n st])
    next
      case (Some d)
      obtain r st1 where r: "visit bs d (st\<lparr>visiting := insert n (visiting st)\<rparr>) = (r, st1)"
        by (cases "visit bs d (st\<lparr>visiting := insert n (visiting st)\<rparr>)")
      with nv Some "1.prems" have rT: "r = True"
        and st': "st' = st1\<lparr>visiting := visiting st1 - {n}, visited := insert n (visited st1),
                            sorder := sorder st1 @ [n]\<rparr>"
        by (auto simp: visit.simps[of bs n st] split: bool.splits)
      from "1.IH"[OF nv Some] r rT
      have "visiting st1 = insert n (visiting st) \<and> visited st \<subseteq> visited st1"
        by simp
      with st' nv show ?thesis by auto
    qed
  qed
qed

lemma visit_False_dep:
  "visit bs n st = (False, st') \<Longrightarrow> n \<notin> visiting st \<Longrightarrow>
   \<exists>b. findBucket bs n = Some b \<and> dependency b \<noteq> None"
  by (auto simp: visit.simps[of bs n st] dependencyOf_def split: if_splits option.splits)

lemma findBucket_first:
  "k < length bs \<Longrightarrow> \<forall>j<k. name (bs ! j) \<noteq> name (bs ! k) \<Longrightarrow>
   findBucket bs (name (bs ! k)) = Some (bs ! k)"
  unfolding findBucket_def find_Some_iff by (rule exI[of _ k]) auto

lemma visitFrom_Inl:
  "visitFrom bs i st = Inl k \<Longrightarrow> visiting st = {} \<Longrightarrow> \<forall>j<i. name (bs ! j) \<in> visited st \<Longrightarrow>
   i \<le> k \<and> k < length bs \<and> dependency (bs ! k) \<noteq> None"
proof (induction bs i st rule: visitFrom.induct)
  case (1 bs i st)
  from "1.prems"(1) have i: "i < length bs"
    by (auto simp: visitFrom.simps[of bs i st] split: if_splits)
  show ?case
  proof (cases "name (bs ! i) \<in> visited st")
    case True
    with i "1.prems" have "visitFrom bs (Suc i) st = Inl k"
      by (simp add: visitFrom.simps[of bs i st])
    moreover have "\<forall>j<Suc i. name (bs ! j) \<in> visited st"
      using True "1.prems"(3) by (auto simp: less_Suc_eq)
    ultimately show ?thesis using "1.IH"(2)[OF i _ ] True "1.prems"(2) by fastforce
  next
    case False
    obtain r st1 where r: "visit bs (name (bs ! i)) st = (r, st1)"
      by (cases "visit bs (name (bs ! i)) st")
    show ?thesis
    proof (cases r)
      case True
      with r visit_True[of bs "name (bs ! i)" st st1]
      have v: "visiting st1 = visiting st" "visited st \<subseteq> visited st1" "name (bs ! i) \<in> visited st1"
        by auto
      from i False r True "1.prems" have "visitFrom bs (Suc i) st1 = Inl k"
        by (simp add: visitFrom.simps[of bs i st])
      moreover have "\<forall>j<Suc i. name (bs ! j) \<in> visited st1"
        using v "1.prems"(3) by (auto simp: less_Suc_eq)
      ultimately show ?thesis
        using "1.IH"(1)[OF i False r[symmetric] _ ] True v "1.prems"(2) by fastforce
    next
      case F: False
      with i False r "1.prems" have k: "k = i"
        by (simp add: visitFrom.simps[of bs i st])
      from r F "1.prems"(2) visit_False_dep[of bs "name (bs ! i)" st st1]
      obtain b where b: "findBucket bs (name (bs ! i)) = Some b" "dependency b \<noteq> None"
        by auto
      have "\<forall>j<i. name (bs ! j) \<noteq> name (bs ! i)"
        using "1.prems"(3) False by metis
      from findBucket_first[OF i this] b have "dependency (bs ! i) \<noteq> None" by simp
      with k i show ?thesis by simp
    qed
  qed
qed

lemma edgeCount_clear:
  assumes "k < length bs" "dependency (bs ! k) \<noteq> None"
  shows "edgeCount (clearDependency k bs) < edgeCount bs"
proof -
  have "bs = take k bs @ bs ! k # drop (Suc k) bs"
    using assms(1) by (simp add: id_take_nth_drop)
  then have "edgeCount bs = edgeCount (take k bs @ bs ! k # drop (Suc k) bs)" by simp
  also have "\<dots> = edgeCount (take k bs) + 1 + edgeCount (drop (Suc k) bs)"
    using assms(2) by (simp add: edgeCount_def)
  finally have e1: "edgeCount bs = edgeCount (take k bs) + 1 + edgeCount (drop (Suc k) bs)" .
  have "clearDependency k bs = take k bs @ (bs ! k)\<lparr>dependsOn := None\<rparr> # drop (Suc k) bs"
    using assms(1) by (simp add: clearDependency_def upd_conv_take_nth_drop)
  then have "edgeCount (clearDependency k bs) = edgeCount (take k bs) + edgeCount (drop (Suc k) bs)"
    by (simp add: edgeCount_def dependency_def)
  with e1 show ?thesis by simp
qed


text \<open>
  \<open>updateBucketOrder()\<close>: the bucket array it leaves and the warnings it shows, in
  order. When a visit returns \<open>false\<close> the method shows a warning, clears the
  \<open>dependsOn\<close> of the bucket the loop is at, calls itself and returns.
\<close>

definition cycleWarning :: "string \<Rightarrow> string" where
  "cycleWarning n = ''Circular dependency detected involving '' @ n @ ''. Dependency removed.''"

function updateBucketOrder :: "PRBucket list \<Rightarrow> PRBucket list \<times> string list" where
  "updateBucketOrder bs =
     (case visitFrom bs 0 emptySort of
        Inl k \<Rightarrow>
          (case updateBucketOrder (clearDependency k bs) of
             (bs', warnings) \<Rightarrow> (bs', cycleWarning (name (bs ! k)) # warnings))
      | Inr st \<Rightarrow> (assignOrder (sorder st) 0 bs, []))"
  by pat_completeness auto
termination
proof (relation "measure edgeCount")
  show "wf (measure edgeCount)" by simp
next
  fix bs :: "PRBucket list" and k :: nat
  assume "visitFrom bs 0 emptySort = Inl k"
  then have "k < length bs \<and> dependency (bs ! k) \<noteq> None"
    using visitFrom_Inl[of bs 0 emptySort k] by (simp add: emptySort_def)
  then show "(clearDependency k bs, bs) \<in> measure edgeCount"
    by (simp add: edgeCount_clear)
qed

declare updateBucketOrder.simps [simp del]

text \<open>
  \<open>setBucketDependency(bucketName, dependsOn)\<close> (here \<open>bname\<close>, \<open>dep\<close>) on the bucket array, with the warnings
  shown.
\<close>

definition setBucketDependency ::
  "string \<Rightarrow> string option \<Rightarrow> PRBucket list \<Rightarrow> PRBucket list \<times> string list" where
  "setBucketDependency bname dep bs =
     (case findIndex (\<lambda>b. name b = bname) bs of
        None \<Rightarrow> (bs, [])
      | Some k \<Rightarrow> updateBucketOrder (bs[k := (bs ! k)\<lparr>dependsOn := dep\<rparr>]))"

text \<open>
  \<open>getBucketsInOrder()\<close>: \<open>[...this.buckets].sort((a, b) => (a.order || 0) - (b.order || 0))\<close>.
  \<open>Array.prototype.sort\<close> is stable, as \<open>sort_key\<close> is.
\<close>

definition orderKey :: "PRBucket \<Rightarrow> nat" where
  "orderKey b = (case order b of None \<Rightarrow> 0 | Some k \<Rightarrow> k)"

definition getBucketsInOrder :: "PRBucket list \<Rightarrow> PRBucket list" where
  "getBucketsInOrder bs = sort_key orderKey bs"

section \<open>Helper facts about characters\<close>

lemma char_of_nat_eq: "(char_of (n::nat) = c) \<longleftrightarrow> (n mod 256 = of_char c)"
  unfolding of_char_eq_iff[symmetric, where ?'a = nat] by (simp add: of_char_of)



section \<open>Example inputs\<close>

text \<open>
  Concrete files, buckets, stores and worlds on which the theorems below are run. In
  \<open>exWorld failing\<close> an action throws exactly when \<open>failing\<close> holds of it; the branch
  that is active is \<open>dev\<close>, the remote is a GitHub repository, and the clock ends in
  \<open>123456\<close>.
\<close>

definition exFile :: "string \<Rightarrow> string \<Rightarrow> string \<Rightarrow> FileItem" where
  "exFile p st g =
     \<lparr>path = p, status = st, label = p, isDirectory = Some False, fsize = None,
      lastModified = None, gitStatus = Some g\<rparr>"

definition exBucket :: "nat \<Rightarrow> string \<Rightarrow> FileItem list \<Rightarrow> string option \<Rightarrow> PRBucket" where
  "exBucket i n fs d =
     \<lparr>oid = i, name = n, title = n, description = [], files = fs, branchName = None,
      dependsOn = d, order = None\<rparr>"

definition exStore :: provider where
  "exStore =
     \<lparr>buckets = [exBucket 0 ''A'' [exFile ''c.ts'' ''Modified'' ''M''] None],
      gitChanges = [exFile ''a.ts'' ''Modified'' ''M'', exFile ''b.ts'' ''Deleted'' ''D''],
      detached = [], nextOid = 1\<rparr>"

definition exWorld :: "(action \<Rightarrow> bool) \<Rightarrow> world" where
  "exWorld failing =
     \<lparr>run = (\<lambda>l a. if failing a then Inl ''failed''
                   else Inr (case a of
                               GitBranchShowCurrent \<Rightarrow> ''dev'' @ [CHR 0x0A]
                             | GitRemoteUrl \<Rightarrow> ''git@github.com:o/r.git'' @ [CHR 0x0A]
                             | GhPrCreate t d b h \<Rightarrow> ''https://github.com/o/r/pull/1'' @ [CHR 0x0A]
                             | _ \<Rightarrow> [])),
      now = (\<lambda>l. 1700000123456),
      pathJoin = (\<lambda>ps. case ps of [] \<Rightarrow> ''.'' | p # qs \<Rightarrow> foldl (\<lambda>x y. x @ ''/'' @ y) p qs)\<rparr>"

definition exGit :: GitManager where
  "exGit = \<lparr>workspaceRoot = ''/w'', repoType = Github\<rparr>"

definition exCfg :: config where
  "exCfg = \<lparr>useGitHubCLI = True, defaultBaseBranch = ''main''\<rparr>"

definition exA :: PRBucket where
  "exA = exBucket 0 ''A'' [exFile ''a.ts'' ''Modified'' ''M''] None"

definition exB :: "string option \<Rightarrow> PRBucket" where
  "exB d = exBucket 1 ''B'' [exFile ''b.ts'' ''Modified'' ''M''] d"

lemmas exEval = processAll_def getCurrentBranch_def execSync_def exWorld_def exGit_def exCfg_def
  exA_def exB_def exBucket_def exFile_def processBucket_def createBranchForBucket_def Let_def
  baseBranchFor_def bucketByName_def trim_def isWhiteSpace_def stageFilesForBucket_def isDeletion_def
  commitBucket_def pushBranch_def switchToBranch_def errorString_def createPRWithCLI_def
  createGitHubPR_def getRepositoryUrl_def commitMessage_def
  sanitize_def toLowerAscii_def isLowerAlnum_def stripDashes_def char_of_nat_eq
  toDecimal.simps sliceLast6_def digitChar_def

definition prFailsForA :: "action \<Rightarrow> bool" where
  "prFailsForA a = (case a of GhPrCreate t d b h \<Rightarrow> h = ''feature/a-123456'' | _ \<Rightarrow> False)"

definition allPrsFail :: "action \<Rightarrow> bool" where
  "allPrsFail a = (case a of GhPrCreate t d b h \<Rightarrow> True | _ \<Rightarrow> False)"

definition exCycle :: "PRBucket list" where
  "exCycle = [exBucket 0 ''A'' [] (Some ''B''), exBucket 1 ''B'' [] (Some ''C''),
              exBucket 2 ''C'' [] (Some ''A'')]"

lemmas resolverEval = setBucketDependency_def updateBucketOrder.simps visitFrom.simps visit.simps
  emptySort_def dependencyOf_def findBucket_def dependency_def clearDependency_def setOrder_def
  exBucket_def cycleWarning_def

definition exChain :: "PRBucket list" where
  "exChain = [exBucket 0 ''C'' [] (Some ''B''), exBucket 1 ''B'' [] (Some ''A''),
              exBucket 2 ''A'' [] None]"

section \<open>The bucket store: exclusivity of file membership\<close>

lemma hasPath_iff: "hasPath p fs \<longleftrightarrow> p \<in> set (map path fs)"
  by (induction fs) (auto simp: hasPath_def)

lemma findIndex_None: "findIndex p xs = None \<longleftrightarrow> (\<forall>x\<in>set xs. \<not> p x)"
  by (induction xs) auto

lemma findIndex_Some: "findIndex p xs = Some i \<Longrightarrow> i < length xs \<and> p (xs ! i) \<and> (\<forall>j<i. \<not> p (xs ! j))"
proof (induction xs arbitrary: i)
  case Nil then show ?case by simp
next
  case (Cons x xs)
  show ?case
  proof (cases "p x")
    case True with Cons.prems show ?thesis by simp
  next
    case False
    with Cons.prems obtain k where k: "findIndex p xs = Some k" "i = Suc k" by auto
    from Cons.IH[OF k(1)] False k(2) show ?thesis
      by (auto simp: less_Suc_eq_0_disj)
  qed
qed

lemma filter_neq_id: "p \<notin> set xs \<Longrightarrow> filter (\<lambda>q. q \<noteq> p) xs = xs"
  by (induction xs) auto

lemma removePath_paths:
  "distinct (map path fs) \<Longrightarrow> map path (removePath p fs) = filter (\<lambda>q. q \<noteq> p) (map path fs)"
proof (induction fs)
  case Nil then show ?case by (simp add: removePath_def)
next
  case (Cons f fs)
  show ?case
  proof (cases "path f = p")
    case True
    with Cons.prems have "p \<notin> set (map path fs)" by auto
    then have "filter (\<lambda>q. q \<noteq> p) (map path fs) = map path fs"
      by (rule filter_neq_id)
    with True show ?thesis by (simp add: removePath_def splice1_def)
  next
    case False
    from Cons have IH: "map path (removePath p fs) = filter (\<lambda>q. q \<noteq> p) (map path fs)" by simp
    show ?thesis using False IH
      by (auto simp: removePath_def splice1_def split: option.splits)
  qed
qed

definition bpaths :: "PRBucket list \<Rightarrow> string list" where
  "bpaths bs = concat (map (\<lambda>b. map path (files b)) bs)"

lemma bpaths_simps [simp]:
  "bpaths [] = []" "bpaths (b # bs) = map path (files b) @ bpaths bs"
  "bpaths (bs @ cs) = bpaths bs @ bpaths cs"
  by (simp_all add: bpaths_def)

lemma allPaths_eq: "allPaths s = map path (gitChanges s) @ bpaths (buckets s)"
  by (simp add: allPaths_def containers_def bpaths_def comp_def)

lemma bpaths_moved:
  "distinct (bpaths bs) \<Longrightarrow> distinct (map oid bs) \<Longrightarrow>
   set (bpaths (map (pushFile r f) (map (dropFile (path f)) bs)))
     = (set (bpaths bs) - {path f}) \<union> (if r \<in> oid ` set bs then {path f} else {})
   \<and> distinct (bpaths (map (pushFile r f) (map (dropFile (path f)) bs)))"
proof (induction bs)
  case Nil then show ?case by simp
next
  case (Cons b bs)
  from Cons.prems have d: "distinct (map path (files b))" "distinct (bpaths bs)"
    "set (map path (files b)) \<inter> set (bpaths bs) = {}" "oid b \<notin> oid ` set bs" "distinct (map oid bs)"
    by auto
  from Cons.IH[OF d(2) d(5)] have IH:
    "set (bpaths (map (pushFile r f) (map (dropFile (path f)) bs)))
       = (set (bpaths bs) - {path f}) \<union> (if r \<in> oid ` set bs then {path f} else {})"
    "distinct (bpaths (map (pushFile r f) (map (dropFile (path f)) bs)))" by auto
  have hd: "map path (files (pushFile r f (dropFile (path f) b)))
     = filter (\<lambda>q. q \<noteq> path f) (map path (files b)) @ (if oid b = r then [path f] else [])"
    using removePath_paths[OF d(1)] by (simp add: pushFile_def dropFile_def)
  show ?case using d IH hd by (auto split: if_splits)
qed

lemma giveBack_paths:
  "distinct (map path g) \<Longrightarrow>
   distinct (map path (foldl giveBack g fs)) \<and>
   set (map path (foldl giveBack g fs)) = set (map path g) \<union> set (map path fs)"
proof (induction fs arbitrary: g)
  case Nil then show ?case by simp
next
  case (Cons f fs)
  have "distinct (map path (giveBack g f))"
    using Cons.prems by (auto simp: giveBack_def hasPath_iff)
  from Cons.IH[OF this] show ?case
    by (auto simp: giveBack_def hasPath_iff split: if_splits)
qed

lemma bpaths_splice:
  "i < length bs \<Longrightarrow> distinct (bpaths bs) \<Longrightarrow>
   distinct (bpaths (splice1 i bs)) \<and>
   set (bpaths (splice1 i bs)) \<inter> set (map path (files (bs ! i))) = {} \<and>
   set (bpaths (splice1 i bs)) \<subseteq> set (bpaths bs) \<and>
   set (map path (files (bs ! i))) \<subseteq> set (bpaths bs)"
proof -
  assume i: "i < length bs" and d: "distinct (bpaths bs)"
  have "bs = take i bs @ (bs ! i) # drop (Suc i) bs"
    using i by (simp add: id_take_nth_drop)
  then have "bpaths bs = bpaths (take i bs) @ map path (files (bs ! i)) @ bpaths (drop (Suc i) bs)"
    by (metis bpaths_simps(2) bpaths_simps(3))
  with d show ?thesis by (auto simp: splice1_def)
qed

lemma oid_pushFile [simp]: "oid (pushFile r f b) = oid b"
  by (simp add: pushFile_def)

lemma oid_dropFile [simp]: "oid (dropFile p b) = oid b"
  by (simp add: dropFile_def)

lemma storeOk_create: "storeOk s \<Longrightarrow> storeOk (createBucket n t d s)"
  by (auto simp: storeOk_def createBucket_def allPaths_eq list_all_iff intro: less_SucI)

lemma storeOk_moveToBucket:
  assumes "storeOk s" shows "storeOk (snd (moveFileToBucket f r s))"
proof (cases "deref s r")
  case None then show ?thesis using assms by (simp add: moveFileToBucket_def)
next
  case (Some b)
  show ?thesis
  proof (cases "hasPath (path f) (files b)")
    case True with Some assms show ?thesis by (simp add: moveFileToBucket_def)
  next
    case False
    let ?s' = "s\<lparr>gitChanges := removePath (path f) (gitChanges s),
              buckets := map (pushFile r f) (map (dropFile (path f)) (buckets s)),
              detached := map (pushFile r f) (detached s)\<rparr>"
    have eq: "snd (moveFileToBucket f r s) = ?s'"
      using Some False by (simp add: moveFileToBucket_def)
    from assms have d: "distinct (map path (gitChanges s))" "distinct (bpaths (buckets s))"
      "set (map path (gitChanges s)) \<inter> set (bpaths (buckets s)) = {}"
      "distinct (map oid (buckets s))"
      by (auto simp: storeOk_def allPaths_eq)
    have oids: "map oid (map (pushFile r f) bs) = map oid bs"
       "map oid (map (dropFile p) bs) = map oid bs" for bs p
      by (simp_all add: comp_def)
    from bpaths_moved[OF d(2) d(4), of r f]
    have m: "set (bpaths (buckets ?s')) \<subseteq> (set (bpaths (buckets s)) - {path f}) \<union> {path f}"
      "distinct (bpaths (buckets ?s'))" by (auto split: if_splits)
    have g: "map path (gitChanges ?s') = filter (\<lambda>q. q \<noteq> path f) (map path (gitChanges s))"
      using removePath_paths[OF d(1)] by simp
    have "distinct (allPaths ?s')"
      unfolding allPaths_eq using d m g by auto
    moreover have "distinct (map oid (buckets ?s' @ detached ?s'))"
      using assms unfolding storeOk_def by (simp add: comp_def)
    moreover have "list_all (\<lambda>b. oid b < nextOid ?s') (buckets ?s' @ detached ?s')"
      using assms by (auto simp: storeOk_def list_all_iff)
    ultimately show ?thesis unfolding eq storeOk_def by blast
  qed
qed

lemma bpaths_dropFile:
  "distinct (bpaths bs) \<Longrightarrow>
   bpaths (map (dropFile p) bs) = filter (\<lambda>q. q \<noteq> p) (bpaths bs)"
proof (induction bs)
  case Nil then show ?case by simp
next
  case (Cons b bs)
  then have "distinct (map path (files b))" "distinct (bpaths bs)" by auto
  with Cons.IH removePath_paths[of "files b" p] show ?case
    by (simp add: dropFile_def)
qed

lemma storeOk_moveToGitChanges:
  assumes "storeOk s" shows "storeOk (snd (moveFileToGitChanges f s))"
proof (cases "hasPath (path f) (gitChanges s)")
  case True with assms show ?thesis by (simp add: moveFileToGitChanges_def)
next
  case False
  from assms have d: "distinct (map path (gitChanges s))" "distinct (bpaths (buckets s))"
      "set (map path (gitChanges s)) \<inter> set (bpaths (buckets s)) = {}"
      by (auto simp: storeOk_def allPaths_eq)
  have oids: "map oid (map (dropFile p) bs) = map oid bs" for bs p
      by (simp add: comp_def)
  from False have nf: "path f \<notin> set (map path (gitChanges s))" by (simp add: hasPath_iff)
  show ?thesis
    using assms d nf False bpaths_dropFile[OF d(2), of "path f"]
    by (auto simp: moveFileToGitChanges_def Let_def storeOk_def allPaths_eq comp_def list_all_iff)
qed

lemma storeOk_delete:
  assumes "storeOk s" shows "storeOk (deleteBucket r s)"
proof (cases "findIndex (\<lambda>b. oid b = r) (buckets s)")
  case None with assms show ?thesis by (simp add: deleteBucket_def)
next
  case (Some i)
  then have i: "i < length (buckets s)" by (auto dest: findIndex_Some)
  let ?b = "buckets s ! i"
  let ?s' = "s\<lparr>gitChanges := foldl giveBack (gitChanges s) (files ?b),
            buckets := splice1 i (buckets s),
            detached := detached s @ [?b]\<rparr>"
  have eq: "deleteBucket r s = ?s'" using Some by (simp add: deleteBucket_def)
  from assms have d: "distinct (map path (gitChanges s))" "distinct (bpaths (buckets s))"
      "set (map path (gitChanges s)) \<inter> set (bpaths (buckets s)) = {}"
      by (auto simp: storeOk_def allPaths_eq)
  note gb = giveBack_paths[OF d(1), of "files ?b"]
  note sp = bpaths_splice[OF i d(2)]
  have "distinct (allPaths ?s')"
    unfolding allPaths_eq using gb sp d(3) by auto
  moreover
  have bs: "buckets s = take i (buckets s) @ ?b # drop (Suc i) (buckets s)"
    using i by (simp add: id_take_nth_drop)
  have "distinct (map oid (take i (buckets s) @ ?b # drop (Suc i) (buckets s) @ detached s))"
    using assms bs by (metis storeOk_def append.assoc append_Cons)
  then have "distinct (map oid (buckets ?s' @ detached ?s'))"
    by (auto simp: splice1_def)
  moreover
  have "set (buckets ?s' @ detached ?s') \<subseteq> set (buckets s @ detached s)"
    using i by (auto simp: splice1_def dest: in_set_takeD in_set_dropD)
  then have "list_all (\<lambda>b. oid b < nextOid ?s') (buckets ?s' @ detached ?s')"
    using assms unfolding storeOk_def list_all_iff by auto
  ultimately show ?thesis unfolding eq storeOk_def by blast
qed

lemma storeOk_applyOp: "storeOk s \<Longrightarrow> storeOk (applyOp x s)"
  by (cases x) (simp_all add: storeOk_create storeOk_moveToBucket storeOk_moveToGitChanges storeOk_delete)

lemma storeOk_runOps: "storeOk s \<Longrightarrow> storeOk (runOps ops s)"
  unfolding runOps_def by (induction ops arbitrary: s) (simp_all add: storeOk_applyOp)

lemma distinct_concat_holders:
  "distinct (concat (map (map path) cs)) \<Longrightarrow> length (filter (\<lambda>c. hasPath p c) cs) \<le> 1"
proof (induction cs)
  case Nil then show ?case by simp
next
  case (Cons c cs)
  then have IH: "length (filter (\<lambda>c. hasPath p c) cs) \<le> 1" by simp
  show ?case
  proof (cases "hasPath p c")
    case False with IH show ?thesis by simp
  next
    case True
    then have "p \<in> set (map path c)" by (simp add: hasPath_iff)
    with Cons.prems have "\<forall>c'\<in>set cs. p \<notin> set (map path c')" by auto
    then have "filter (\<lambda>c. hasPath p c) cs = []"
      by (auto simp: filter_empty_conv hasPath_iff)
    with True show ?thesis by simp
  qed
qed

text \<open>
  Claim C3. Start from a store in which no path occurs twice (the provider as constructed,
  or any pool loaded from the status listing with the buckets it excludes). After every
  prefix of every sequence of bucket-create, file-move (to a bucket, or back to the
  pool) and bucket-delete operations, every path is held by at most one container among
  the pool and the live buckets' file arrays. Bucket references are object identities and
  may denote a bucket that was deleted earlier.
\<close>

theorem exclusivity_invariant:
  assumes "storeOk s"
  shows "holders p (runOps (take k ops) s) \<le> 1"
proof -
  from storeOk_runOps[OF assms, of "take k ops"]
  have "distinct (concat (map (map path) (containers (runOps (take k ops) s))))"
    by (simp add: storeOk_def allPaths_def)
  then show ?thesis unfolding holders_def by (rule distinct_concat_holders)
qed

theorem exclusivity_invariant_witness:
  "storeOk exStore \<and>
   holders ''a.ts''
     (runOps (take 5 [CreateBucket ''B'' ''B'' [],
                      MoveFileToBucket (exFile ''a.ts'' ''Modified'' ''M'') 0,
                      MoveFileToBucket (exFile ''a.ts'' ''Modified'' ''M'') 1,
                      DeleteBucket 1,
                      MoveFileToBucket (exFile ''a.ts'' ''Modified'' ''M'') 1]) exStore) \<le> 1"
proof -
  have h: "storeOk exStore"
    by (simp add: storeOk_def exStore_def exBucket_def exFile_def allPaths_def containers_def)
  from exclusivity_invariant[OF h] h show ?thesis by blast
qed

section \<open>The bucket store: duplicate names\<close>

text \<open>
  Claim C8, as stated, fails on the store's own create operation: \<open>createBucket\<close> makes
  no check and raises nothing, so a second bucket of the same name is added.
\<close>

theorem createBucket_duplicate_counterexample:
  "map name (buckets (createBucket ''A'' ''second'' [] (createBucket ''A'' ''first'' [] initialProvider)))
     = [''A'', ''A'']"
  by (simp add: createBucket_def initialProvider_def)

text \<open>
  Claim C8, amended. The guard is the validator of the create-bucket command's input
  box: for every store state and every name \<open>n\<close> of an existing bucket, a typed value whose
  trimmed form is \<open>n\<close> is rejected with a validation message and the store is left as it
  was, and whatever is typed, the command never adds another bucket named \<open>n\<close>.
\<close>

theorem createBucketCommand_no_duplicate:
  assumes "list_ex (\<lambda>b. name b = n) (buckets s)"
  shows "(trim v = n \<longrightarrow> (\<exists>msg. createBucketCommand (Some v) t d s = (Rejected msg, s))) \<and>
         filter (\<lambda>b. name b = n) (buckets (snd (createBucketCommand i t d s)))
           = filter (\<lambda>b. name b = n) (buckets s)"
proof
  show "trim v = n \<longrightarrow> (\<exists>msg. createBucketCommand (Some v) t d s = (Rejected msg, s))"
    using assms by (auto simp: createBucketCommand_def validateBucketName_def)
next
  show "filter (\<lambda>b. name b = n) (buckets (snd (createBucketCommand i t d s)))
           = filter (\<lambda>b. name b = n) (buckets s)"
  proof (cases "\<exists>x. fst (createBucketCommand i t d s) = Created x")
    case False
    then have "snd (createBucketCommand i t d s) = s"
      by (auto simp: createBucketCommand_def split: option.splits if_splits)
    then show ?thesis by simp
  next
    case True
    then obtain v' where v': "i = Some v'" "validateBucketName s v' = None"
      by (auto simp: createBucketCommand_def split: option.splits if_splits)
    then have "\<not> list_ex (\<lambda>b. name b = trim v') (buckets s)"
      by (auto simp: validateBucketName_def split: if_splits)
    with assms have "trim v' \<noteq> n" by auto
    then show ?thesis using v'
      by (auto simp: createBucketCommand_def createBucket_def split: option.splits if_splits)
  qed
qed

theorem createBucketCommand_no_duplicate_witness:
  "list_ex (\<lambda>b. name b = ''A'') (buckets exStore) \<and>
   (\<exists>msg. createBucketCommand (Some '' A '') (Some ''t'') None exStore = (Rejected msg, exStore)) \<and>
   filter (\<lambda>b. name b = ''A'') (buckets (snd (createBucketCommand (Some ''A'') (Some ''t'') None exStore)))
     = filter (\<lambda>b. name b = ''A'') (buckets exStore)"
proof -
  have h: "list_ex (\<lambda>b. name b = ''A'') (buckets exStore)"
    by (simp add: exStore_def exBucket_def)
  have t: "trim '' A '' = ''A''"
    by (simp add: trim_def isWhiteSpace_def)
  from createBucketCommand_no_duplicate[OF h, of "'' A ''" "Some ''t''" None "Some ''A''"] h t
  show ?thesis by simp
qed


section \<open>Isolated staging\<close>

text \<open>
  What the staging step is expected to run for one file: the removal path for a deletion,
  the add path for anything else.
\<close>

definition expectedStaging :: "FileItem \<Rightarrow> action" where
  "expectedStaging f = (if isDeletion f then GitRm (path f) else GitAdd (path f))"

lemma stageEach_log:
  "\<exists>n \<le> length fs. snd (stageEach w fs l) = l @ map expectedStaging (take n fs) \<and>
     (fst (stageEach w fs l) = Inr () \<longrightarrow> n = length fs)"
proof (induction fs arbitrary: l)
  case Nil then show ?case by simp
next
  case (Cons f fs)
  show ?case
  proof (cases "isDeletion f")
    case True
    from Cons.IH[of "l @ [GitRm (path f)]"] obtain n where n: "n \<le> length fs"
      "snd (stageEach w fs (l @ [GitRm (path f)])) = (l @ [GitRm (path f)]) @ map expectedStaging (take n fs)"
      "fst (stageEach w fs (l @ [GitRm (path f)])) = Inr () \<longrightarrow> n = length fs"
      by blast
    show ?thesis
      apply (rule exI[of _ "Suc n"])
      using True n by (simp add: execSync_def expectedStaging_def)
  next
    case False
    show ?thesis
    proof (cases "run w l (GitAdd (path f))")
      case (Inl e)
      show ?thesis
        apply (rule exI[of _ "Suc 0"])
        using False Inl by (simp add: execSync_def expectedStaging_def)
    next
      case (Inr out)
      from Cons.IH[of "l @ [GitAdd (path f)]"] obtain n where n: "n \<le> length fs"
      "snd (stageEach w fs (l @ [GitAdd (path f)])) = (l @ [GitAdd (path f)]) @ map expectedStaging (take n fs)"
      "fst (stageEach w fs (l @ [GitAdd (path f)])) = Inr () \<longrightarrow> n = length fs"
      by blast
      show ?thesis
        apply (rule exI[of _ "Suc n"])
        using False Inr n by (simp add: execSync_def expectedStaging_def)
    qed
  qed
qed

text \<open>The actions whose failure makes the staging step throw.\<close>

definition stagingNeeded :: "action \<Rightarrow> bool" where
  "stagingNeeded a = (case a of GitReset \<Rightarrow> True | GitAdd p \<Rightarrow> True | _ \<Rightarrow> False)"

lemma stageEach_ok:
  "\<forall>l' a. stagingNeeded a \<longrightarrow> \<not> isl (run w l' a) \<Longrightarrow> fst (stageEach w fs l) = Inr ()"
proof (induction fs arbitrary: l)
  case Nil then show ?case by simp
next
  case (Cons f fs)
  from Cons.prems have "\<not> isl (run w l (GitAdd (path f)))" by (simp add: stagingNeeded_def)
  then obtain out where "run w l (GitAdd (path f)) = Inr out" by (cases "run w l (GitAdd (path f))") auto
  with Cons show ?case by (simp add: execSync_def)
qed

text \<open>
  Claim C9. With a workspace open (at the staging step of the pipeline it is: branch
  creation throws otherwise) and at least one file in the bucket, the staging step runs
  \<open>git reset\<close> first and then, file by file in the bucket's order, \<open>git rm\<close> for
  every file marked as a deletion and \<open>git add\<close> for every other file, and nothing
  else: what it has run is always an initial part of that sequence, it is the whole
  sequence whenever the step returns normally, and the step does return normally when
  the reset and the adds succeed (a failing \<open>git rm\<close> is ignored).
\<close>

theorem staging_isolated:
  assumes "workspaceRoot gm \<noteq> []" and "files bucket \<noteq> []"
  shows "(\<exists>n \<le> length (files bucket).
            snd (stageFilesForBucket gm w bucket l)
              = l @ GitReset # map expectedStaging (take n (files bucket))) \<and>
         (fst (stageFilesForBucket gm w bucket l) = Inr () \<longrightarrow>
            snd (stageFilesForBucket gm w bucket l)
              = l @ GitReset # map expectedStaging (files bucket)) \<and>
         ((\<forall>l' a. stagingNeeded a \<longrightarrow> \<not> isl (run w l' a)) \<longrightarrow>
            fst (stageFilesForBucket gm w bucket l) = Inr ())"
proof (cases "run w l GitReset")
  case (Inl e)
  have "snd (stageFilesForBucket gm w bucket l) = l @ GitReset # map expectedStaging (take 0 (files bucket))"
    using assms Inl by (simp add: stageFilesForBucket_def execSync_def)
  moreover have "fst (stageFilesForBucket gm w bucket l) \<noteq> Inr ()"
    using assms Inl by (simp add: stageFilesForBucket_def execSync_def)
  moreover have "\<not> (\<forall>l' a. stagingNeeded a \<longrightarrow> \<not> isl (run w l' a))"
    using Inl by (auto simp: stagingNeeded_def intro!: exI[of _ l] exI[of _ GitReset])
  ultimately show ?thesis by blast
next
  case (Inr out)
  obtain r l2 where r: "stageEach w (files bucket) (l @ [GitReset]) = (r, l2)"
    by (cases "stageEach w (files bucket) (l @ [GitReset])")
  from stageEach_log[of "files bucket" w "l @ [GitReset]"] r
  obtain n where n: "n \<le> length (files bucket)"
    "l2 = l @ GitReset # map expectedStaging (take n (files bucket))"
    "r = Inr () \<longrightarrow> n = length (files bucket)" by auto
  have s: "snd (stageFilesForBucket gm w bucket l) = l2"
    using assms Inr r by (cases r) (simp_all add: stageFilesForBucket_def execSync_def)
  have f: "fst (stageFilesForBucket gm w bucket l) = Inr () \<longleftrightarrow> r = Inr ()"
    using assms Inr r by (cases r) (simp_all add: stageFilesForBucket_def execSync_def)
  have "(\<forall>l' a. stagingNeeded a \<longrightarrow> \<not> isl (run w l' a)) \<longrightarrow> r = Inr ()"
    using stageEach_ok[of w "files bucket" "l @ [GitReset]"] r by auto
  with n s f show ?thesis by auto
qed

theorem staging_isolated_witness:
  "workspaceRoot exGit \<noteq> [] \<and>
   files (exBucket 0 ''A'' [exFile ''a.ts'' ''Modified'' ''M'', exFile ''old.ts'' ''Deleted'' ''D''] None) \<noteq> [] \<and>
   stageFilesForBucket exGit (exWorld (\<lambda>a. a = GitRm ''old.ts''))
     (exBucket 0 ''A'' [exFile ''a.ts'' ''Modified'' ''M'', exFile ''old.ts'' ''Deleted'' ''D''] None)
     [GitAdd ''leftover.ts'']
   = (Inr (), [GitAdd ''leftover.ts'', GitReset, GitAdd ''a.ts'', GitRm ''old.ts''])"
proof -
  let ?b = "exBucket 0 ''A'' [exFile ''a.ts'' ''Modified'' ''M'', exFile ''old.ts'' ''Deleted'' ''D''] None"
  let ?w = "exWorld (\<lambda>a. a = GitRm ''old.ts'')"
  have h1: "workspaceRoot exGit \<noteq> []" by (simp add: exGit_def)
  have h2: "files ?b \<noteq> []" by (simp add: exBucket_def)
  have ok: "\<forall>l' a. stagingNeeded a \<longrightarrow> \<not> isl (run ?w l' a)"
    by (auto simp: stagingNeeded_def exWorld_def split: action.splits)
  from staging_isolated[OF h1 h2, of ?w "[GitAdd ''leftover.ts'']"] ok
  have "fst (stageFilesForBucket exGit ?w ?b [GitAdd ''leftover.ts'']) = Inr ()"
    and "snd (stageFilesForBucket exGit ?w ?b [GitAdd ''leftover.ts''])
          = [GitAdd ''leftover.ts''] @ GitReset # map expectedStaging (files ?b)"
    by blast+
  then have "stageFilesForBucket exGit ?w ?b [GitAdd ''leftover.ts'']
     = (Inr (), [GitAdd ''leftover.ts''] @ GitReset # map expectedStaging (files ?b))"
    by (metis prod.collapse)
  with h1 h2 show ?thesis
    by (simp add: expectedStaging_def isDeletion_def exBucket_def exFile_def)
qed

section \<open>The adapter without a workspace\<close>

lemma processLoop_no_root:
  "workspaceRoot gm = [] \<Longrightarrow> processLoop gm w cfg (Suc k) st = Inl (''No workspace root found'', st)"
  by (induction k) (simp_all add: processBucket_def createBranchForBucket_def Let_def)

text \<open>
  Claim C10. With the empty string as workspace root, \<open>commitBucket\<close>, \<open>pushBranch\<close>
  and \<open>switchToBranch\<close> return normally and perform no action, whereas
  \<open>createBranchForBucket\<close> throws \<open>No workspace root found\<close> before any action; so
  the pipeline of every bucket fails at branch creation, and a run over a non-empty
  bucket list that could read the current branch is aborted with that error, nothing
  else having been run.
\<close>

theorem no_workspace:
  assumes "workspaceRoot gm = []"
  shows "commitBucket gm w bucket l = (Inr (), l) \<and>
         pushBranch gm w br l = (Inr (), l) \<and>
         switchToBranch gm w br l = (Inr (), l) \<and>
         createBranchForBucket gm w n base l = (Inl ''No workspace root found'', l) \<and>
         processBucket gm w cfg k st = Inl (''No workspace root found'', st) \<and>
         (bs \<noteq> [] \<longrightarrow> run w l GitBranchShowCurrent = Inr out \<longrightarrow>
            processAll gm w cfg bs l
              = (Aborted (errorString ''No workspace root found''), bs, l @ [GitBranchShowCurrent]))"
proof -
  have "bs \<noteq> [] \<Longrightarrow> \<exists>k. length bs = Suc k" by (cases bs) auto
  then show ?thesis
    using assms processLoop_no_root[OF assms]
    by (auto simp: commitBucket_def pushBranch_def switchToBranch_def createBranchForBucket_def
        processBucket_def Let_def processAll_def getCurrentBranch_def execSync_def)
qed

theorem no_workspace_witness:
  "workspaceRoot \<lparr>workspaceRoot = [], repoType = Github\<rparr> = [] \<and>
   commitBucket \<lparr>workspaceRoot = [], repoType = Github\<rparr> (exWorld (\<lambda>a. False))
     (exBucket 0 ''A'' [exFile ''a.ts'' ''Modified'' ''M''] None) [] = (Inr (), []) \<and>
   createBranchForBucket \<lparr>workspaceRoot = [], repoType = Github\<rparr> (exWorld (\<lambda>a. False))
     ''A'' (Some ''main'') [] = (Inl ''No workspace root found'', []) \<and>
   processAll \<lparr>workspaceRoot = [], repoType = Github\<rparr> (exWorld (\<lambda>a. False))
     \<lparr>useGitHubCLI = True, defaultBaseBranch = ''main''\<rparr>
     [exBucket 0 ''A'' [exFile ''a.ts'' ''Modified'' ''M''] None] []
   = (Aborted ''Error: No workspace root found'',
      [exBucket 0 ''A'' [exFile ''a.ts'' ''Modified'' ''M''] None], [GitBranchShowCurrent])"
proof -
  let ?gm = "\<lparr>workspaceRoot = [], repoType = Github\<rparr>"
  have h: "workspaceRoot ?gm = []" by simp
  have r: "run (exWorld (\<lambda>a. False)) [] GitBranchShowCurrent = Inr (''dev'' @ [CHR 0x0A])"
    by (simp add: exWorld_def)
  from no_workspace[OF h, of "exWorld (\<lambda>a. False)" _ "[]" _ _ _ _ _ _ "[exBucket 0 ''A'' [exFile ''a.ts'' ''Modified'' ''M''] None]"] r
  show ?thesis by (simp add: errorString_def)
qed

section \<open>The orchestrator's loop\<close>

lemma createBranch_Inr:
  "createBranchForBucket gm w n b l = (Inr br, l1) \<Longrightarrow>
   br = ''feature/'' @ sanitize n @ ''-'' @ sliceLast6 (toDecimal (now w l))"
  by (auto simp: createBranchForBucket_def Let_def split: if_splits prod.splits sum.splits)

lemma processBucket_Inr:
  assumes "processBucket gm w cfg k st = Inr st'"
  shows "\<exists>r br. br \<noteq> [] \<and>
           rbuckets st' = (rbuckets st)[k := (rbuckets st ! k)\<lparr>branchName := Some br\<rparr>] \<and>
           results st' = results st @ [r] \<and> bucketName r = name (rbuckets st ! k) \<and>
           resultBranch r = br \<and>
           ((success r \<and> error r = None \<and> url r \<noteq> None) \<or>
            (\<not> success r \<and> error r \<noteq> None \<and> url r = None))"
proof -
  let ?b = "rbuckets st ! k"
  let ?base = "baseBranchFor cfg (rbuckets st) ?b"
  obtain r1 l1 where c: "createBranchForBucket gm w (name ?b) (Some ?base) (rlog st) = (r1, l1)"
    by (cases "createBranchForBucket gm w (name ?b) (Some ?base) (rlog st)")
  from assms c obtain br where br: "r1 = Inr br"
    by (cases r1) (auto simp: processBucket_def Let_def)
  from createBranch_Inr[OF c[unfolded br]] have ne: "br \<noteq> []" by simp
  show ?thesis
    using assms c br ne
    by (auto simp: processBucket_def Let_def split: prod.splits sum.splits if_splits)
qed


lemma processLoop_inv:
  assumes "processLoop gm w cfg k \<lparr>rbuckets = bs, results = [], rlog = l0\<rparr> = Inr st"
      and "k \<le> length bs"
  shows "length (rbuckets st) = length bs \<and> length (results st) = k \<and>
         (\<forall>i<length bs. name (rbuckets st ! i) = name (bs ! i) \<and>
                         dependsOn (rbuckets st ! i) = dependsOn (bs ! i)) \<and>
         (\<forall>i<k. branchName (rbuckets st ! i) = Some (resultBranch (results st ! i)) \<and>
                resultBranch (results st ! i) \<noteq> [] \<and>
                bucketName (results st ! i) = name (bs ! i) \<and>
                ((success (results st ! i) \<and> error (results st ! i) = None \<and> url (results st ! i) \<noteq> None) \<or>
                 (\<not> success (results st ! i) \<and> error (results st ! i) \<noteq> None \<and> url (results st ! i) = None))) \<and>
         (\<forall>i<length bs. k \<le> i \<longrightarrow> rbuckets st ! i = bs ! i)"
  using assms
proof (induction k arbitrary: st)
  case 0
  then show ?case by auto
next
  case (Suc k)
  from Suc.prems(1) obtain st1 where
    st1: "processLoop gm w cfg k \<lparr>rbuckets = bs, results = [], rlog = l0\<rparr> = Inr st1"
    and step: "processBucket gm w cfg k st1 = Inr st"
    by (auto split: sum.splits)
  from Suc.prems(2) have k: "k < length bs" by simp
  from Suc.IH[OF st1] k have IH:
    "length (rbuckets st1) = length bs" "length (results st1) = k"
    "\<forall>i<length bs. name (rbuckets st1 ! i) = name (bs ! i) \<and>
                         dependsOn (rbuckets st1 ! i) = dependsOn (bs ! i)"
    "\<forall>i<k. branchName (rbuckets st1 ! i) = Some (resultBranch (results st1 ! i)) \<and>
                resultBranch (results st1 ! i) \<noteq> [] \<and>
                bucketName (results st1 ! i) = name (bs ! i) \<and>
                ((success (results st1 ! i) \<and> error (results st1 ! i) = None \<and> url (results st1 ! i) \<noteq> None) \<or>
                 (\<not> success (results st1 ! i) \<and> error (results st1 ! i) \<noteq> None \<and> url (results st1 ! i) = None))"
    "\<forall>i<length bs. k \<le> i \<longrightarrow> rbuckets st1 ! i = bs ! i"
    by auto
  from processBucket_Inr[OF step] obtain r br where r:
    "br \<noteq> []"
    "rbuckets st = (rbuckets st1)[k := (rbuckets st1 ! k)\<lparr>branchName := Some br\<rparr>]"
    "results st = results st1 @ [r]" "bucketName r = name (rbuckets st1 ! k)"
    "resultBranch r = br"
    "(success r \<and> error r = None \<and> url r \<noteq> None) \<or> (\<not> success r \<and> error r \<noteq> None \<and> url r = None)"
    by blast
  have a: "length (rbuckets st) = length bs" using r(2) IH(1) by simp
  have b: "length (results st) = Suc k" using r(3) IH(2) by simp
  have c: "\<forall>i<length bs. name (rbuckets st ! i) = name (bs ! i) \<and>
                         dependsOn (rbuckets st ! i) = dependsOn (bs ! i)"
  proof (intro allI impI)
    fix i assume i: "i < length bs"
    show "name (rbuckets st ! i) = name (bs ! i) \<and> dependsOn (rbuckets st ! i) = dependsOn (bs ! i)"
    proof (cases "i = k")
      case True
      then have "rbuckets st ! i = (rbuckets st1 ! k)\<lparr>branchName := Some br\<rparr>"
        using r(2) IH(1) k by simp
      with IH(3) k True show ?thesis by simp
    next
      case False
      then have "rbuckets st ! i = rbuckets st1 ! i" using r(2) by simp
      with IH(3) i show ?thesis by simp
    qed
  qed
  have d: "\<forall>i<length bs. Suc k \<le> i \<longrightarrow> rbuckets st ! i = bs ! i"
  proof (intro allI impI)
    fix i assume i: "i < length bs" "Suc k \<le> i"
    then have "rbuckets st ! i = rbuckets st1 ! i" using r(2) by simp
    with IH(5) i show "rbuckets st ! i = bs ! i" by simp
  qed
  have e: "\<forall>i<Suc k. branchName (rbuckets st ! i) = Some (resultBranch (results st ! i)) \<and>
                resultBranch (results st ! i) \<noteq> [] \<and>
                bucketName (results st ! i) = name (bs ! i) \<and>
                ((success (results st ! i) \<and> error (results st ! i) = None \<and> url (results st ! i) \<noteq> None) \<or>
                 (\<not> success (results st ! i) \<and> error (results st ! i) \<noteq> None \<and> url (results st ! i) = None))"
  proof (intro allI impI)
    fix i assume "i < Suc k"
    then consider "i < k" | "i = k" by linarith
    then show "branchName (rbuckets st ! i) = Some (resultBranch (results st ! i)) \<and>
                resultBranch (results st ! i) \<noteq> [] \<and>
                bucketName (results st ! i) = name (bs ! i) \<and>
                ((success (results st ! i) \<and> error (results st ! i) = None \<and> url (results st ! i) \<noteq> None) \<or>
                 (\<not> success (results st ! i) \<and> error (results st ! i) \<noteq> None \<and> url (results st ! i) = None))"
    proof cases
      case 1
      with IH(4) have "branchName (rbuckets st1 ! i) = Some (resultBranch (results st1 ! i)) \<and>
                resultBranch (results st1 ! i) \<noteq> [] \<and>
                bucketName (results st1 ! i) = name (bs ! i) \<and>
                ((success (results st1 ! i) \<and> error (results st1 ! i) = None \<and> url (results st1 ! i) \<noteq> None) \<or>
                 (\<not> success (results st1 ! i) \<and> error (results st1 ! i) \<noteq> None \<and> url (results st1 ! i) = None))"
        by blast
      moreover have "rbuckets st ! i = rbuckets st1 ! i" using 1 r(2) by simp
      moreover have "results st ! i = results st1 ! i" using 1 r(3) IH(2) by (simp add: nth_append)
      ultimately show ?thesis by simp
    next
      case 2
      have "rbuckets st ! i = (rbuckets st1 ! k)\<lparr>branchName := Some br\<rparr>"
        using 2 r(2) IH(1) k by simp
      moreover have "results st ! i = r" using 2 r(3) IH(2) by (simp add: nth_append)
      moreover have "name (rbuckets st1 ! k) = name (bs ! k)" using IH(3) k by blast
      ultimately show ?thesis using r 2 by simp
    qed
  qed
  from a b c d e show ?case by blast
qed

lemma bucketByName_distinct:
  assumes "distinct (map name bs)" "i < length bs"
  shows "bucketByName bs (name (bs ! i)) = Some (bs ! i)"
proof -
  have r: "rev bs ! (length bs - Suc i) = bs ! i" using assms(2) by (simp add: rev_nth)
  have "\<forall>j<length bs - Suc i. name (rev bs ! j) \<noteq> name (bs ! i)"
  proof (intro allI impI)
    fix j assume j: "j < length bs - Suc i"
    then have "rev bs ! j = bs ! (length bs - Suc j)" by (simp add: rev_nth)
    moreover have "length bs - Suc j \<noteq> i" "length bs - Suc j < length bs" using j assms(2) by auto
    ultimately show "name (rev bs ! j) \<noteq> name (bs ! i)"
      using assms by (metis distinct_conv_nth length_map nth_map)
  qed
  with r assms(2) have "find (\<lambda>b. name b = name (bs ! i)) (rev bs) = Some (bs ! i)"
    unfolding find_Some_iff by (intro exI[of _ "length bs - Suc i"]) auto
  then show ?thesis by (simp add: bucketByName_def)
qed

lemma bucketByName_absent:
  "d \<notin> set (map name bs) \<Longrightarrow> bucketByName bs d = None"
  by (auto simp: bucketByName_def find_None_iff)

text \<open>The log an iteration of the loop leaves, whether it returned or threw.\<close>

definition runLog :: "(string \<times> runState) + runState \<Rightarrow> action list" where
  "runLog r = (case r of Inl (e, st) \<Rightarrow> rlog st | Inr st \<Rightarrow> rlog st)"

lemma processBucket_pr:
  assumes mode: "useGitHubCLI cfg \<or> repoType gm = Bitbucket"
      and step: "processBucket gm w cfg k st = Inr st'"
  shows "\<exists>br base st1. pipelineSteps gm w cfg k st = Inr (br, base, st1) \<and>
           base = baseBranchFor cfg (rbuckets st) (rbuckets st ! k) \<and>
           rbuckets st1 = (rbuckets st)[k := (rbuckets st ! k)\<lparr>branchName := Some br\<rparr>] \<and>
           results st1 = results st \<and>
           rbuckets st' = rbuckets st1 \<and>
           rlog st' = snd (createPRWithCLI gm w ((rbuckets st ! k)\<lparr>branchName := Some br\<rparr>) base (rlog st1)) \<and>
           results st' = results st @
             [case fst (createPRWithCLI gm w ((rbuckets st ! k)\<lparr>branchName := Some br\<rparr>) base (rlog st1)) of
                Inl e \<Rightarrow> \<lparr>bucketName = name (rbuckets st ! k), resultBranch = br, url = None,
                           success = False, manual = None, error = Some (errorString e)\<rparr>
              | Inr u \<Rightarrow> \<lparr>bucketName = name (rbuckets st ! k), resultBranch = br, url = Some u,
                           success = True, manual = Some (repoType gm = Bitbucket), error = None\<rparr>]"
  using assms
  by (auto simp: processBucket_def pipelineSteps_def Let_def split: prod.splits sum.splits)


lemma createBranch_root:
  "createBranchForBucket gm w n b l = (Inr br, l1) \<Longrightarrow> workspaceRoot gm \<noteq> []"
  by (auto simp: createBranchForBucket_def split: if_splits)

lemma trim_feature: "trim (''feature/'' @ s) \<noteq> []"
proof -
  have "dropWhile isWhiteSpace (''feature/'' @ s) = ''feature/'' @ s"
    by (simp add: isWhiteSpace_def)
  moreover have "dropWhile isWhiteSpace (rev (''feature/'' @ s)) \<noteq> []"
    by (auto simp: dropWhile_eq_Nil_conv isWhiteSpace_def)
  ultimately show ?thesis by (simp add: trim_def)
qed

lemma prefix_stageEach: "prefix l (snd (stageEach w fs l))"
  using stageEach_log[of fs w l] by auto

lemma prefix_stage: "prefix l (snd (stageFilesForBucket gm w b l))"
proof -
  have "prefix (l @ [GitReset]) (snd (stageEach w (files b) (l @ [GitReset])))"
    by (rule prefix_stageEach)
  then have "prefix l (snd (stageEach w (files b) (l @ [GitReset])))"
    by (meson append_prefixD)
  then show ?thesis
    by (auto simp: stageFilesForBucket_def execSync_def split: prod.splits sum.splits)
qed

lemma prefix_commit: "prefix l (snd (commitBucket gm w b l))"
  by (auto simp: commitBucket_def Let_def execSync_def split: prod.splits sum.splits)

lemma prefix_push: "prefix l (snd (pushBranch gm w br l))"
  by (auto simp: pushBranch_def execSync_def split: prod.splits sum.splits)

lemma prefix_repoUrl: "prefix l (snd (getRepositoryUrl gm w l))"
  by (auto simp: getRepositoryUrl_def execSync_def split: prod.splits sum.splits)

lemma prefix_createPR: "prefix l (snd (createPRWithCLI gm w b base l))"
  by (auto simp: createPRWithCLI_def createGitHubPR_def createBitbucketPR_def getRepositoryUrl_def
      execSync_def split: prod.splits sum.splits option.splits repoKind.splits if_splits)

lemma prefix_createBranch:
  assumes "workspaceRoot gm \<noteq> []" "b \<noteq> []" "trim b \<noteq> []"
  shows "prefix (l @ [GitCheckout b]) (snd (createBranchForBucket gm w n (Some b) l))"
  using assms
  by (auto simp: createBranchForBucket_def Let_def execSync_def split: prod.splits sum.splits)

lemma prefix_processBucket:
  "prefix (snd (createBranchForBucket gm w (name (rbuckets st ! k))
             (Some (baseBranchFor cfg (rbuckets st) (rbuckets st ! k))) (rlog st)))
          (runLog (processBucket gm w cfg k st))"
proof -
  let ?b = "rbuckets st ! k"
  let ?base = "baseBranchFor cfg (rbuckets st) ?b"
  obtain r1 l1 where c: "createBranchForBucket gm w (name ?b) (Some ?base) (rlog st) = (r1, l1)"
    by (cases "createBranchForBucket gm w (name ?b) (Some ?base) (rlog st)")
  show ?thesis
  proof (cases r1)
    case (Inl e)
    with c show ?thesis by (simp add: processBucket_def Let_def runLog_def)
  next
    case (Inr br)
    let ?b1 = "?b\<lparr>branchName := Some br\<rparr>"
    obtain r2 l2 where s: "stageFilesForBucket gm w ?b1 l1 = (r2, l2)"
      by (cases "stageFilesForBucket gm w ?b1 l1")
    have p2: "prefix l1 l2" using prefix_stage[of l1 gm w ?b1] s by simp
    show ?thesis
    proof (cases r2)
      case (Inl e)
      with c Inr s p2 show ?thesis by (simp add: processBucket_def Let_def runLog_def)
    next
      case r2: (Inr u2)
      obtain r3 l3 where m: "commitBucket gm w ?b1 l2 = (r3, l3)"
        by (cases "commitBucket gm w ?b1 l2")
      have p3: "prefix l1 l3" using prefix_commit[of l2 gm w ?b1] m p2 by auto
      show ?thesis
      proof (cases r3)
        case (Inl e)
        with c Inr s r2 m p3 show ?thesis by (simp add: processBucket_def Let_def runLog_def)
      next
        case r3: (Inr u3)
        obtain r4 l4 where p: "pushBranch gm w br l3 = (r4, l4)"
          by (cases "pushBranch gm w br l3")
        have p4: "prefix l1 l4" using prefix_push[of l3 gm w br] p p3 by auto
        show ?thesis
        proof (cases r4)
          case (Inl e)
          with c Inr s r2 m r3 p p4 show ?thesis by (simp add: processBucket_def Let_def runLog_def)
        next
          case r4: (Inr u4)
          show ?thesis
          proof (cases "useGitHubCLI cfg \<or> repoType gm = Bitbucket")
            case True
            obtain r5 l5 where q: "createPRWithCLI gm w ?b1 ?base l4 = (r5, l5)"
              by (cases "createPRWithCLI gm w ?b1 ?base l4")
            have "prefix l1 l5" using prefix_createPR[of l4 gm w ?b1 ?base] q p4 by auto
            with c Inr s r2 m r3 p r4 q True show ?thesis
              by (cases r5) (simp_all add: processBucket_def Let_def runLog_def)
          next
            case False
            obtain r5 l5 where q: "getRepositoryUrl gm w l4 = (r5, l5)"
              by (cases "getRepositoryUrl gm w l4")
            have "prefix l1 l5" using prefix_repoUrl[of l4 gm w] q p4 by auto
            with c Inr s r2 m r3 p r4 q False show ?thesis
              by (cases r5) (simp_all add: processBucket_def Let_def runLog_def)
          qed
        qed
      qed
    qed
  qed
qed

lemma githubPR_logged:
  "GhPrCreate (title b) (description b) base br \<in> set (snd (createGitHubPR gm w b br base l))"
  by (auto simp: createGitHubPR_def getRepositoryUrl_def execSync_def
      split: prod.splits sum.splits option.splits)

text \<open>
  The iteration for the bucket at index \<open>k\<close> is run on the base branch \<open>base\<close>: the base
  resolved for the bucket is \<open>base\<close>; unless \<open>base\<close> is blank, the first action of the
  iteration is the checkout of \<open>base\<close>; and with the GitHub CLI the change request of the
  iteration is created onto \<open>base\<close> from the branch of the iteration.
\<close>

definition basedOn :: "GitManager \<Rightarrow> world \<Rightarrow> config \<Rightarrow> nat \<Rightarrow> runState \<Rightarrow> string \<Rightarrow> bool" where
  "basedOn gm w cfg k st base \<longleftrightarrow>
     baseBranchFor cfg (rbuckets st) (rbuckets st ! k) = base \<and>
     (base \<noteq> [] \<and> trim base \<noteq> [] \<longrightarrow>
        prefix (rlog st @ [GitCheckout base]) (runLog (processBucket gm w cfg k st))) \<and>
     (\<forall>st'. processBucket gm w cfg k st = Inr st' \<longrightarrow> useGitHubCLI cfg \<longrightarrow> repoType gm = Github \<longrightarrow>
        GhPrCreate (title (rbuckets st ! k)) (description (rbuckets st ! k)) base
          (resultBranch (last (results st'))) \<in> set (rlog st'))"

lemma basedOn_resolved:
  assumes root: "workspaceRoot gm \<noteq> []"
  shows "basedOn gm w cfg k st (baseBranchFor cfg (rbuckets st) (rbuckets st ! k))"
proof -
  let ?b = "rbuckets st ! k"
  let ?base = "baseBranchFor cfg (rbuckets st) ?b"
  have a: "?base \<noteq> [] \<and> trim ?base \<noteq> [] \<longrightarrow>
        prefix (rlog st @ [GitCheckout ?base]) (runLog (processBucket gm w cfg k st))"
  proof
    assume "?base \<noteq> [] \<and> trim ?base \<noteq> []"
    with prefix_createBranch[OF root, of ?base "rlog st" w "name ?b"]
    have "prefix (rlog st @ [GitCheckout ?base])
            (snd (createBranchForBucket gm w (name ?b) (Some ?base) (rlog st)))" by simp
    with prefix_processBucket[of gm w st k cfg]
    show "prefix (rlog st @ [GitCheckout ?base]) (runLog (processBucket gm w cfg k st))"
      by (rule prefix_order.trans[rotated])
  qed
  have b: "\<forall>st'. processBucket gm w cfg k st = Inr st' \<longrightarrow> useGitHubCLI cfg \<longrightarrow> repoType gm = Github \<longrightarrow>
        GhPrCreate (title ?b) (description ?b) ?base (resultBranch (last (results st'))) \<in> set (rlog st')"
  proof (intro allI impI)
    fix st' assume step: "processBucket gm w cfg k st = Inr st'"
      and cli: "useGitHubCLI cfg" and gh: "repoType gm = Github"
    from processBucket_pr[OF _ step] cli obtain br st1 where p:
      "pipelineSteps gm w cfg k st = Inr (br, ?base, st1)"
      "rlog st' = snd (createPRWithCLI gm w (?b\<lparr>branchName := Some br\<rparr>) ?base (rlog st1))"
      "results st' = results st @
             [case fst (createPRWithCLI gm w (?b\<lparr>branchName := Some br\<rparr>) ?base (rlog st1)) of
                Inl e \<Rightarrow> \<lparr>bucketName = name ?b, resultBranch = br, url = None,
                           success = False, manual = None, error = Some (errorString e)\<rparr>
              | Inr u \<Rightarrow> \<lparr>bucketName = name ?b, resultBranch = br, url = Some u,
                           success = True, manual = Some (repoType gm = Bitbucket), error = None\<rparr>]"
      by blast
    from p(3) have rb: "resultBranch (last (results st')) = br"
      by (simp split: sum.splits)
    from p(1) obtain l1 where "createBranchForBucket gm w (name ?b) (Some ?base) (rlog st) = (Inr br, l1)"
      by (auto simp: pipelineSteps_def Let_def split: prod.splits sum.splits)
    from createBranch_Inr[OF this] have ne: "br \<noteq> []" by simp
    have "createPRWithCLI gm w (?b\<lparr>branchName := Some br\<rparr>) ?base (rlog st1)
        = createGitHubPR gm w (?b\<lparr>branchName := Some br\<rparr>) br ?base (rlog st1)"
      using root gh ne by (simp add: createPRWithCLI_def)
    with p(2) githubPR_logged[of "?b\<lparr>branchName := Some br\<rparr>" ?base br gm w "rlog st1"] rb
    show "GhPrCreate (title ?b) (description ?b) ?base (resultBranch (last (results st'))) \<in> set (rlog st')"
      by simp
  qed
  from a b show ?thesis by (simp add: basedOn_def)
qed

lemma processBucket_branch:
  assumes "processBucket gm w cfg k st = Inr st'"
  shows "\<exists>r. results st' = results st @ [r] \<and> trim (resultBranch r) \<noteq> []"
proof -
  let ?b = "rbuckets st ! k"
  let ?base = "baseBranchFor cfg (rbuckets st) ?b"
  obtain r1 l1 where c: "createBranchForBucket gm w (name ?b) (Some ?base) (rlog st) = (r1, l1)"
    by (cases "createBranchForBucket gm w (name ?b) (Some ?base) (rlog st)")
  from assms c obtain br where br: "r1 = Inr br"
    by (cases r1) (auto simp: processBucket_def Let_def)
  from createBranch_Inr[OF c[unfolded br]] trim_feature have ne: "trim br \<noteq> []" by simp
  show ?thesis
    using assms c br ne
    by (auto simp: processBucket_def Let_def split: prod.splits sum.splits if_splits)
qed

lemma processLoop_branches:
  assumes "processLoop gm w cfg k \<lparr>rbuckets = bs, results = [], rlog = l0\<rparr> = Inr st"
      and "k \<le> length bs"
  shows "\<forall>i<k. trim (resultBranch (results st ! i)) \<noteq> []"
  using assms
proof (induction k arbitrary: st)
  case 0
  then show ?case by simp
next
  case (Suc k)
  from Suc.prems(1) obtain st1 where
    st1: "processLoop gm w cfg k \<lparr>rbuckets = bs, results = [], rlog = l0\<rparr> = Inr st1"
    and step: "processBucket gm w cfg k st1 = Inr st"
    by (auto split: sum.splits)
  from Suc.prems(2) have k: "k \<le> length bs" by simp
  from processLoop_inv[OF st1 k] have len: "length (results st1) = k" by simp
  from processBucket_branch[OF step] obtain r where r: "results st = results st1 @ [r]"
    "trim (resultBranch r) \<noteq> []" by blast
  show ?case
  proof (intro allI impI)
    fix i assume "i < Suc k"
    then consider "i < k" | "i = k" by linarith
    then show "trim (resultBranch (results st ! i)) \<noteq> []"
    proof cases
      case 1
      with Suc.IH[OF st1 k] r(1) len show ?thesis by (simp add: nth_append)
    next
      case 2
      with r len show ?thesis by (simp add: nth_append)
    qed
  qed
qed

lemma processLoop_earlier:
  assumes "processLoop gm w cfg n st0 = Inr st" and "k \<le> n"
  shows "\<exists>stk more. processLoop gm w cfg k st0 = Inr stk \<and> results st = results stk @ more"
  using assms
proof (induction n arbitrary: st)
  case 0
  then show ?case by simp
next
  case (Suc n)
  from Suc.prems(1) obtain st1 where
    st1: "processLoop gm w cfg n st0 = Inr st1"
    and step: "processBucket gm w cfg n st1 = Inr st"
    by (auto split: sum.splits)
  show ?case
  proof (cases "k = Suc n")
    case True
    with Suc.prems(1) show ?thesis by auto
  next
    case False
    with Suc.prems(2) have "k \<le> n" by simp
    from Suc.IH[OF st1 this] obtain stk more where
      s: "processLoop gm w cfg k st0 = Inr stk" "results st1 = results stk @ more" by blast
    from processBucket_branch[OF step] obtain r where "results st = results st1 @ [r]" by blast
    with s show ?thesis by auto
  qed
qed

text \<open>
  Claim C7. Take a run with a workspace over buckets with distinct names that has
  reached the bucket at index \<open>k\<close>, which depends on the name \<open>d\<close>; the next iteration
  of the loop is the loop body on that bucket. If the bucket named \<open>d\<close> was processed
  earlier in this run, that iteration is run on the branch this run created for it and
  assigned to its \<open>branchName\<close> (the one in its result): this is the base resolved, the
  first action of the iteration is its checkout, and the change request is created onto
  it. If the bucket named \<open>d\<close> comes later in the run and has no \<open>branchName\<close> yet, or
  if no bucket of the run is named \<open>d\<close>, the iteration is run on the configured default
  in the same sense.
\<close>

theorem base_resolution:
  assumes run: "processLoop gm w cfg k \<lparr>rbuckets = bs, results = [], rlog = l0\<rparr> = Inr st"
      and k: "k < length bs"
      and dist: "distinct (map name bs)"
      and dep: "dependsOn (bs ! k) = Some d" "d \<noteq> []"
      and root: "workspaceRoot gm \<noteq> []"
  shows "processLoop gm w cfg (Suc k) \<lparr>rbuckets = bs, results = [], rlog = l0\<rparr>
           = processBucket gm w cfg k st \<and>
         (\<forall>i<k. name (bs ! i) = d \<longrightarrow>
            branchName (rbuckets st ! i) = Some (resultBranch (results st ! i)) \<and>
            trim (resultBranch (results st ! i)) \<noteq> [] \<and>
            basedOn gm w cfg k st (resultBranch (results st ! i))) \<and>
         (\<forall>i<length bs. k \<le> i \<and> name (bs ! i) = d \<and> branchName (bs ! i) = None \<longrightarrow>
            basedOn gm w cfg k st (defaultBaseBranch cfg)) \<and>
         (d \<notin> set (map name bs) \<longrightarrow> basedOn gm w cfg k st (defaultBaseBranch cfg))"
proof -
  from processLoop_inv[OF run] k have inv:
    "length (rbuckets st) = length bs"
    "\<forall>i<length bs. name (rbuckets st ! i) = name (bs ! i) \<and>
                         dependsOn (rbuckets st ! i) = dependsOn (bs ! i)"
    "\<forall>i<k. branchName (rbuckets st ! i) = Some (resultBranch (results st ! i)) \<and>
                resultBranch (results st ! i) \<noteq> []"
    "\<forall>i<length bs. k \<le> i \<longrightarrow> rbuckets st ! i = bs ! i"
    by auto
  from processLoop_branches[OF run] k have tr: "\<forall>i<k. trim (resultBranch (results st ! i)) \<noteq> []"
    by simp
  note used = basedOn_resolved[OF root, of w cfg k st]
  have names: "map name (rbuckets st) = map name bs"
    using inv(1,2) by (auto intro: nth_equalityI)
  then have dist': "distinct (map name (rbuckets st))" using dist by simp
  have depk: "dependsOn (rbuckets st ! k) = Some d" using inv(2) k dep(1) by simp
  have look: "i < length bs \<Longrightarrow> name (bs ! i) = d \<Longrightarrow> bucketByName (rbuckets st) d = Some (rbuckets st ! i)" for i
    using bucketByName_distinct[OF dist', of i] inv(1,2) by auto
  have 0: "processLoop gm w cfg (Suc k) \<lparr>rbuckets = bs, results = [], rlog = l0\<rparr>
           = processBucket gm w cfg k st"
    using run by simp
  have 1: "\<forall>i<k. name (bs ! i) = d \<longrightarrow>
            branchName (rbuckets st ! i) = Some (resultBranch (results st ! i)) \<and>
            trim (resultBranch (results st ! i)) \<noteq> [] \<and>
            basedOn gm w cfg k st (resultBranch (results st ! i))"
  proof (intro allI impI)
    fix i assume i: "i < k" and n: "name (bs ! i) = d"
    from i k have "i < length bs" by simp
    from look[OF this n] inv(3) i depk dep(2)
    have "baseBranchFor cfg (rbuckets st) (rbuckets st ! k) = resultBranch (results st ! i)"
      by (simp add: baseBranchFor_def)
    with used inv(3) tr i
    show "branchName (rbuckets st ! i) = Some (resultBranch (results st ! i)) \<and>
            trim (resultBranch (results st ! i)) \<noteq> [] \<and>
            basedOn gm w cfg k st (resultBranch (results st ! i))"
      by simp
  qed
  have 2: "\<forall>i<length bs. k \<le> i \<and> name (bs ! i) = d \<and> branchName (bs ! i) = None \<longrightarrow>
            basedOn gm w cfg k st (defaultBaseBranch cfg)"
  proof (intro allI impI)
    fix i assume i: "i < length bs" and h: "k \<le> i \<and> name (bs ! i) = d \<and> branchName (bs ! i) = None"
    from look[OF i] h have "bucketByName (rbuckets st) d = Some (rbuckets st ! i)" by simp
    moreover have "rbuckets st ! i = bs ! i" using inv(4) i h by simp
    ultimately have "baseBranchFor cfg (rbuckets st) (rbuckets st ! k) = defaultBaseBranch cfg"
      using depk dep(2) h by (simp add: baseBranchFor_def)
    with used show "basedOn gm w cfg k st (defaultBaseBranch cfg)" by simp
  qed
  have 3: "d \<notin> set (map name bs) \<longrightarrow> basedOn gm w cfg k st (defaultBaseBranch cfg)"
  proof
    assume "d \<notin> set (map name bs)"
    with bucketByName_absent[of d "rbuckets st"] names depk dep(2)
    have "baseBranchFor cfg (rbuckets st) (rbuckets st ! k) = defaultBaseBranch cfg"
      by (simp add: baseBranchFor_def)
    with used show "basedOn gm w cfg k st (defaultBaseBranch cfg)" by simp
  qed
  from 0 1 2 3 show ?thesis by blast
qed

theorem base_resolution_witness:
  "\<exists>st st'. processLoop exGit (exWorld (\<lambda>a. False)) exCfg 1
           \<lparr>rbuckets = [exA, exB (Some ''A'')], results = [], rlog = []\<rparr> = Inr st \<and>
        resultBranch (results st ! 0) = ''feature/a-123456'' \<and>
        basedOn exGit (exWorld (\<lambda>a. False)) exCfg 1 st ''feature/a-123456'' \<and>
        processLoop exGit (exWorld (\<lambda>a. False)) exCfg (Suc 1)
           \<lparr>rbuckets = [exA, exB (Some ''A'')], results = [], rlog = []\<rparr> = Inr st' \<and>
        prefix (rlog st @ [GitCheckout ''feature/a-123456'']) (rlog st') \<and>
        GhPrCreate ''B'' [] ''feature/a-123456'' ''feature/b-123456'' \<in> set (rlog st')"
proof -
  let ?w = "exWorld (\<lambda>a. False)"
  let ?bs = "[exA, exB (Some ''A'')]"
  have "\<exists>st. processLoop exGit ?w exCfg 1 \<lparr>rbuckets = ?bs, results = [], rlog = []\<rparr> = Inr st \<and>
        resultBranch (results st ! 0) = ''feature/a-123456''"
    by (simp add: exEval urlMatch.simps)
  then obtain st where st: "processLoop exGit ?w exCfg 1 \<lparr>rbuckets = ?bs, results = [], rlog = []\<rparr> = Inr st"
     "resultBranch (results st ! 0) = ''feature/a-123456''" by blast
  have h: "1 < length ?bs" "distinct (map name ?bs)"
    "dependsOn (?bs ! 1) = Some ''A''" "''A'' \<noteq> []" "workspaceRoot exGit \<noteq> []"
    "name (?bs ! 0) = ''A''"
    by (simp_all add: exA_def exB_def exBucket_def exGit_def)
  from base_resolution[OF st(1) h(1) h(2) h(3) h(4) h(5)] h(6) st(2)
  have nxt: "processLoop exGit ?w exCfg (Suc 1) \<lparr>rbuckets = ?bs, results = [], rlog = []\<rparr>
           = processBucket exGit ?w exCfg 1 st"
    and b: "basedOn exGit ?w exCfg 1 st ''feature/a-123456''"
    by auto
  have "\<exists>st'. processLoop exGit ?w exCfg (Suc 1) \<lparr>rbuckets = ?bs, results = [], rlog = []\<rparr> = Inr st' \<and>
          resultBranch (last (results st')) = ''feature/b-123456''"
    by (simp add: exEval urlMatch.simps)
  then obtain st' where st': "processLoop exGit ?w exCfg (Suc 1) \<lparr>rbuckets = ?bs, results = [], rlog = []\<rparr> = Inr st'"
    "resultBranch (last (results st')) = ''feature/b-123456''" by blast
  from nxt st'(1) have pb: "processBucket exGit ?w exCfg 1 st = Inr st'"
    by simp
  have t: "trim ''feature/a-123456'' \<noteq> []" by (simp add: trim_def isWhiteSpace_def)
  from b pb t st'(2) have
    "prefix (rlog st @ [GitCheckout ''feature/a-123456'']) (rlog st')"
    "GhPrCreate (title (rbuckets st ! 1)) (description (rbuckets st ! 1)) ''feature/a-123456''
        ''feature/b-123456'' \<in> set (rlog st')"
    by (auto simp: basedOn_def runLog_def exCfg_def exGit_def)
  moreover from processLoop_inv[OF st(1)] have "rbuckets st ! 1 = ?bs ! 1" by simp
  then have "title (rbuckets st ! 1) = ''B''" "description (rbuckets st ! 1) = []"
    by (simp_all add: exB_def exBucket_def)
  ultimately show ?thesis using st st' b by auto
qed

text \<open>
  The actions of the change-request step (\<open>createPRWithCLI\<close>): \<open>gh pr create\<close> and
  the lookup of the remote URL.
\<close>

definition prAction :: "action \<Rightarrow> bool" where
  "prAction a = (case a of GhPrCreate t d b h \<Rightarrow> True | GitRemoteUrl \<Rightarrow> True | _ \<Rightarrow> False)"

lemma stageEach_no_add_failure:
  "\<forall>l' p. \<not> isl (run w l' (GitAdd p)) \<Longrightarrow> \<exists>l2. stageEach w fs l = (Inr (), l2)"
proof (induction fs arbitrary: l)
  case Nil then show ?case by simp
next
  case (Cons f fs)
  from Cons.prems have "\<not> isl (run w l (GitAdd (path f)))" by blast
  then obtain out where "run w l (GitAdd (path f)) = Inr out"
    by (cases "run w l (GitAdd (path f))") auto
  with Cons show ?case by (simp add: execSync_def)
qed

lemma processBucket_ok:
  assumes root: "workspaceRoot gm \<noteq> []"
      and mode: "useGitHubCLI cfg \<or> repoType gm = Bitbucket"
      and ok: "\<forall>l a. \<not> prAction a \<longrightarrow> \<not> isl (run w l a)"
  shows "\<exists>st'. processBucket gm w cfg k st = Inr st'"
proof -
  have good: "\<exists>out. run w l a = Inr out" if "\<not> prAction a" for a l
  proof -
    from ok that have "\<not> isl (run w l a)" by blast
    then show ?thesis by (cases "run w l a") auto
  qed
  let ?b = "rbuckets st ! k"
  let ?base = "baseBranchFor cfg (rbuckets st) ?b"
  obtain br l1 where c: "createBranchForBucket gm w (name ?b) (Some ?base) (rlog st) = (Inr br, l1)"
  proof -
    let ?br = "''feature/'' @ sanitize (name ?b) @ ''-'' @ sliceLast6 (toDecimal (now w (rlog st)))"
    have step: "\<exists>l1. (case execSync w L (GitCheckoutNew ?br) of
              (Inl e, l2) \<Rightarrow> (Inl (m e), l2)
            | (Inr out, l2) \<Rightarrow> (Inr ?br, l2)) = (Inr ?br, l1)" for L m
    proof -
      obtain out where "run w L (GitCheckoutNew ?br) = Inr out"
        using good[of "GitCheckoutNew ?br" L] by (auto simp: prAction_def)
      then show ?thesis by (simp add: execSync_def)
    qed
    have "\<exists>l1. createBranchForBucket gm w (name ?b) (Some ?base) (rlog st) = (Inr ?br, l1)"
      unfolding createBranchForBucket_def Let_def using root
      by (simp only: if_False) (rule step)
    then show ?thesis using that by blast
  qed
  let ?b1 = "?b\<lparr>branchName := Some br\<rparr>"
  obtain l2 where s: "stageFilesForBucket gm w ?b1 l1 = (Inr (), l2)"
  proof -
    have "\<exists>out. run w l1 GitReset = Inr out" by (rule good) (simp add: prAction_def)
    moreover have "\<forall>l' p. \<not> isl (run w l' (GitAdd p))" using ok by (simp add: prAction_def)
    from stageEach_no_add_failure[OF this]
    have "\<exists>l2. stageEach w (files ?b1) (l1 @ [GitReset]) = (Inr (), l2)" .
    ultimately have "\<exists>l2. stageFilesForBucket gm w ?b1 l1 = (Inr (), l2)"
      by (auto simp: stageFilesForBucket_def execSync_def)
    then show ?thesis using that by blast
  qed
  obtain l3 where m: "commitBucket gm w ?b1 l2 = (Inr (), l3)"
  proof -
    let ?t = "pathJoin w [workspaceRoot gm, ''.git'', ''COMMIT_EDITMSG_TEMP'']"
    have "\<exists>out. run w l2 (WriteFile ?t (commitMessage ?b1)) = Inr out"
      by (rule good) (simp add: prAction_def)
    moreover have "\<exists>out. run w (l2 @ [WriteFile ?t (commitMessage ?b1)]) (GitCommitFile ?t) = Inr out"
      by (rule good) (simp add: prAction_def)
    ultimately have "\<exists>l3. commitBucket gm w ?b1 l2 = (Inr (), l3)"
      using root by (auto simp: commitBucket_def Let_def execSync_def)
    then show ?thesis using that by blast
  qed
  obtain l4 where p: "pushBranch gm w br l3 = (Inr (), l4)"
  proof -
    have "\<exists>out. run w l3 (GitPush br) = Inr out" by (rule good) (simp add: prAction_def)
    then have "\<exists>l4. pushBranch gm w br l3 = (Inr (), l4)"
      using root by (auto simp: pushBranch_def execSync_def)
    then show ?thesis using that by blast
  qed
  obtain r5 l5 where q: "createPRWithCLI gm w ?b1 ?base l4 = (r5, l5)"
    by (cases "createPRWithCLI gm w ?b1 ?base l4")
  show ?thesis
    using c s m p q mode by (cases r5) (simp_all add: processBucket_def Let_def)
qed

lemma processLoop_ok:
  assumes "workspaceRoot gm \<noteq> []" "useGitHubCLI cfg \<or> repoType gm = Bitbucket"
      "\<forall>l a. \<not> prAction a \<longrightarrow> \<not> isl (run w l a)"
  shows "\<exists>st'. processLoop gm w cfg k st = Inr st'"
proof (induction k)
  case 0 show ?case by simp
next
  case (Suc k)
  then obtain st1 where "processLoop gm w cfg k st = Inr st1" by blast
  with processBucket_ok[OF assms, of k st1] show ?case by simp
qed

text \<open>
  Claim C1, amended. The loop catches a failure of the change-request step only. In a run
  with a workspace, in the mode that calls \<open>createPRWithCLI\<close>, in which no action
  other than those of the change-request step fails: the run is not aborted, every
  bucket gets exactly one result, in order and under its name, and the result of the
  bucket at index \<open>k\<close> is decided by what \<open>createPRWithCLI\<close> did for it after its push:
  if it threw, the result is the failure with the text of that error; if it returned,
  the result is the success with the URL returned. So a failed change-request creation
  is recorded for its bucket and the next bucket is processed.
\<close>

theorem pr_failure_isolated:
  assumes root: "workspaceRoot gm \<noteq> []"
      and mode: "useGitHubCLI cfg \<or> repoType gm = Bitbucket"
      and ok: "\<forall>l a. \<not> prAction a \<longrightarrow> \<not> isl (run w l a)"
  shows "\<exists>rs c bs' l'. processAll gm w cfg bs l = (Completed rs c, bs', l') \<and>
           map bucketName rs = map name bs \<and>
           list_all (\<lambda>r. if success r then url r \<noteq> None \<and> error r = None
                         else error r \<noteq> None) rs \<and>
           (\<forall>k<length bs. \<exists>stk br base st1.
              processLoop gm w cfg k \<lparr>rbuckets = bs, results = [], rlog = l @ [GitBranchShowCurrent]\<rparr>
                = Inr stk \<and>
              pipelineSteps gm w cfg k stk = Inr (br, base, st1) \<and>
              rs ! k =
                (case fst (createPRWithCLI gm w (rbuckets st1 ! k) base (rlog st1)) of
                   Inl e \<Rightarrow> \<lparr>bucketName = name (bs ! k), resultBranch = br, url = None,
                              success = False, manual = None, error = Some (errorString e)\<rparr>
                 | Inr u \<Rightarrow> \<lparr>bucketName = name (bs ! k), resultBranch = br, url = Some u,
                              success = True, manual = Some (repoType gm = Bitbucket),
                              error = None\<rparr>))"
proof -
  have good: "\<exists>out. run w l a = Inr out" if "\<not> prAction a" for a l
  proof -
    from ok that have "\<not> isl (run w l a)" by blast
    then show ?thesis by (cases "run w l a") auto
  qed
  obtain out where cur: "run w l GitBranchShowCurrent = Inr out"
    using good[of GitBranchShowCurrent l] by (auto simp: prAction_def)
  let ?l0 = "l @ [GitBranchShowCurrent]"
  let ?st0 = "\<lparr>rbuckets = bs, results = [], rlog = ?l0\<rparr>"
  obtain st where st: "processLoop gm w cfg (length bs) ?st0 = Inr st"
    using processLoop_ok[OF assms] by blast
  obtain out2 where sw: "run w (rlog st) (GitCheckout (trim out)) = Inr out2"
    using good[of "GitCheckout (trim out)" "rlog st"] by (auto simp: prAction_def)
  have pa: "processAll gm w cfg bs l =
      (Completed (results st) (0 < length (filter success (results st))), rbuckets st,
       rlog st @ [GitCheckout (trim out)])"
    using cur st sw root
    by (simp add: processAll_def getCurrentBranch_def execSync_def switchToBranch_def)
  from processLoop_inv[OF st] have inv: "length (results st) = length bs"
    "\<forall>i<length bs. bucketName (results st ! i) = name (bs ! i) \<and>
        ((success (results st ! i) \<and> error (results st ! i) = None \<and> url (results st ! i) \<noteq> None) \<or>
         (\<not> success (results st ! i) \<and> error (results st ! i) \<noteq> None \<and> url (results st ! i) = None))"
    by auto
  have n: "map bucketName (results st) = map name bs"
    using inv by (auto intro: nth_equalityI)
  have "\<forall>r\<in>set (results st). if success r then url r \<noteq> None \<and> error r = None else error r \<noteq> None"
  proof
    fix r assume "r \<in> set (results st)"
    then obtain i where "i < length (results st)" "results st ! i = r"
      by (auto simp: in_set_conv_nth)
    with inv show "if success r then url r \<noteq> None \<and> error r = None else error r \<noteq> None"
      by auto
  qed
  then have wf: "list_all (\<lambda>r. if success r then url r \<noteq> None \<and> error r = None
                         else error r \<noteq> None) (results st)"
    by (simp add: list_all_iff)
  have each: "\<forall>k<length bs. \<exists>stk br base st1.
              processLoop gm w cfg k ?st0 = Inr stk \<and>
              pipelineSteps gm w cfg k stk = Inr (br, base, st1) \<and>
              results st ! k =
                (case fst (createPRWithCLI gm w (rbuckets st1 ! k) base (rlog st1)) of
                   Inl e \<Rightarrow> \<lparr>bucketName = name (bs ! k), resultBranch = br, url = None,
                              success = False, manual = None, error = Some (errorString e)\<rparr>
                 | Inr u \<Rightarrow> \<lparr>bucketName = name (bs ! k), resultBranch = br, url = Some u,
                              success = True, manual = Some (repoType gm = Bitbucket),
                              error = None\<rparr>)"
  proof (intro allI impI)
    fix k assume k: "k < length bs"
    then have "Suc k \<le> length bs" by simp
    from processLoop_earlier[OF st this] obtain stn more where
      sn: "processLoop gm w cfg (Suc k) ?st0 = Inr stn" "results st = results stn @ more" by blast
    from sn(1) obtain stk where sk: "processLoop gm w cfg k ?st0 = Inr stk"
      and step: "processBucket gm w cfg k stk = Inr stn"
      by (auto split: sum.splits)
    from k have "k \<le> length bs" by simp
    from processLoop_inv[OF sk this] k have ik: "length (results stk) = k"
      "name (rbuckets stk ! k) = name (bs ! k)" "length (rbuckets stk) = length bs" by auto
    from processBucket_pr[OF mode step] obtain br base st1 where p:
      "pipelineSteps gm w cfg k stk = Inr (br, base, st1)"
      "rbuckets st1 = (rbuckets stk)[k := (rbuckets stk ! k)\<lparr>branchName := Some br\<rparr>]"
      "results stn = results stk @
             [case fst (createPRWithCLI gm w ((rbuckets stk ! k)\<lparr>branchName := Some br\<rparr>) base (rlog st1)) of
                Inl e \<Rightarrow> \<lparr>bucketName = name (rbuckets stk ! k), resultBranch = br, url = None,
                           success = False, manual = None, error = Some (errorString e)\<rparr>
              | Inr u \<Rightarrow> \<lparr>bucketName = name (rbuckets stk ! k), resultBranch = br, url = Some u,
                           success = True, manual = Some (repoType gm = Bitbucket), error = None\<rparr>]"
      by blast
    from p(2) ik(3) k have b1: "rbuckets st1 ! k = (rbuckets stk ! k)\<lparr>branchName := Some br\<rparr>"
      by simp
    from sn(2) p(3) ik(1) have "results st ! k =
        (case fst (createPRWithCLI gm w ((rbuckets stk ! k)\<lparr>branchName := Some br\<rparr>) base (rlog st1)) of
                Inl e \<Rightarrow> \<lparr>bucketName = name (rbuckets stk ! k), resultBranch = br, url = None,
                           success = False, manual = None, error = Some (errorString e)\<rparr>
              | Inr u \<Rightarrow> \<lparr>bucketName = name (rbuckets stk ! k), resultBranch = br, url = Some u,
                           success = True, manual = Some (repoType gm = Bitbucket), error = None\<rparr>)"
      by (simp add: nth_append)
    with sk p(1) b1 ik(2)
    show "\<exists>stk br base st1.
              processLoop gm w cfg k ?st0 = Inr stk \<and>
              pipelineSteps gm w cfg k stk = Inr (br, base, st1) \<and>
              results st ! k =
                (case fst (createPRWithCLI gm w (rbuckets st1 ! k) base (rlog st1)) of
                   Inl e \<Rightarrow> \<lparr>bucketName = name (bs ! k), resultBranch = br, url = None,
                              success = False, manual = None, error = Some (errorString e)\<rparr>
                 | Inr u \<Rightarrow> \<lparr>bucketName = name (bs ! k), resultBranch = br, url = Some u,
                              success = True, manual = Some (repoType gm = Bitbucket),
                              error = None\<rparr>)"
      by (auto split: sum.splits)
  qed
  from pa n wf each show ?thesis by blast
qed

theorem pr_failure_isolated_witness:
  "\<exists>rs c bs' l'. processAll exGit (exWorld prFailsForA) exCfg [exA, exB None] [] = (Completed rs c, bs', l') \<and>
       map bucketName rs = [''A'', ''B''] \<and> map success rs = [False, True] \<and>
       map error rs = [Some ''Error: Failed to create GitHub PR: Error: failed'', None] \<and>
       (\<exists>stk br base st1.
          processLoop exGit (exWorld prFailsForA) exCfg 0
            \<lparr>rbuckets = [exA, exB None], results = [], rlog = [] @ [GitBranchShowCurrent]\<rparr> = Inr stk \<and>
          pipelineSteps exGit (exWorld prFailsForA) exCfg 0 stk = Inr (br, base, st1) \<and>
          fst (createPRWithCLI exGit (exWorld prFailsForA) (rbuckets st1 ! 0) base (rlog st1))
            = Inl ''Failed to create GitHub PR: Error: failed'' \<and>
          rs ! 0 = \<lparr>bucketName = ''A'', resultBranch = ''feature/a-123456'', url = None,
                     success = False, manual = None,
                     error = Some ''Error: Failed to create GitHub PR: Error: failed''\<rparr>)"
proof -
  let ?w = "exWorld prFailsForA"
  let ?st0 = "\<lparr>rbuckets = [exA, exB None], results = [], rlog = [] @ [GitBranchShowCurrent]\<rparr>"
  have h1: "workspaceRoot exGit \<noteq> []" and h2: "useGitHubCLI exCfg \<or> repoType exGit = Bitbucket"
    by (simp_all add: exGit_def exCfg_def)
  have h3: "\<forall>l a. \<not> prAction a \<longrightarrow> \<not> isl (run ?w l a)"
    by (auto simp: prAction_def prFailsForA_def exWorld_def split: action.splits)
  from pr_failure_isolated[OF h1 h2 h3, of "[exA, exB None]" "[]"]
  obtain rs c bs' l' where r: "processAll exGit ?w exCfg [exA, exB None] [] = (Completed rs c, bs', l')"
    and each: "\<forall>k<length [exA, exB None]. \<exists>stk br base st1.
              processLoop exGit ?w exCfg k ?st0 = Inr stk \<and>
              pipelineSteps exGit ?w exCfg k stk = Inr (br, base, st1) \<and>
              rs ! k =
                (case fst (createPRWithCLI exGit ?w (rbuckets st1 ! k) base (rlog st1)) of
                   Inl e \<Rightarrow> \<lparr>bucketName = name ([exA, exB None] ! k), resultBranch = br, url = None,
                              success = False, manual = None, error = Some (errorString e)\<rparr>
                 | Inr u \<Rightarrow> \<lparr>bucketName = name ([exA, exB None] ! k), resultBranch = br, url = Some u,
                              success = True, manual = Some (repoType exGit = Bitbucket),
                              error = None\<rparr>)"
    by blast
  from each have "0 < length [exA, exB None] \<longrightarrow> (\<exists>stk br base st1.
              processLoop exGit ?w exCfg 0 ?st0 = Inr stk \<and>
              pipelineSteps exGit ?w exCfg 0 stk = Inr (br, base, st1) \<and>
              rs ! 0 =
                (case fst (createPRWithCLI exGit ?w (rbuckets st1 ! 0) base (rlog st1)) of
                   Inl e \<Rightarrow> \<lparr>bucketName = name ([exA, exB None] ! 0), resultBranch = br, url = None,
                              success = False, manual = None, error = Some (errorString e)\<rparr>
                 | Inr u \<Rightarrow> \<lparr>bucketName = name ([exA, exB None] ! 0), resultBranch = br, url = Some u,
                              success = True, manual = Some (repoType exGit = Bitbucket),
                              error = None\<rparr>))"
    by (rule spec)
  then obtain stk br base st1 where e0:
    "processLoop exGit ?w exCfg 0 ?st0 = Inr stk"
    "pipelineSteps exGit ?w exCfg 0 stk = Inr (br, base, st1)"
    by auto
  have full: "fst (processAll exGit ?w exCfg [exA, exB None] []) =
     Completed [\<lparr>bucketName = ''A'', resultBranch = ''feature/a-123456'', url = None, success = False,
                  manual = None, error = Some ''Error: Failed to create GitHub PR: Error: failed''\<rparr>,
                \<lparr>bucketName = ''B'', resultBranch = ''feature/b-123456'', url = Some ''https://github.com/o/r/pull/1'',
                  success = True, manual = Some False, error = None\<rparr>] True"
    by (simp add: exEval prFailsForA_def urlMatch.simps)
  from e0(1) have stk: "stk = ?st0" by simp
  have "case pipelineSteps exGit ?w exCfg 0 ?st0 of
          Inl x \<Rightarrow> False
        | Inr (br, base, st1) \<Rightarrow>
            fst (createPRWithCLI exGit ?w (rbuckets st1 ! 0) base (rlog st1))
              = Inl ''Failed to create GitHub PR: Error: failed''"
    by (simp add: pipelineSteps_def exEval prFailsForA_def)
  with e0(2) stk have pr: "fst (createPRWithCLI exGit ?w (rbuckets st1 ! 0) base (rlog st1))
            = Inl ''Failed to create GitHub PR: Error: failed''" by simp
  from r full have rs: "rs = [\<lparr>bucketName = ''A'', resultBranch = ''feature/a-123456'', url = None, success = False,
                  manual = None, error = Some ''Error: Failed to create GitHub PR: Error: failed''\<rparr>,
                \<lparr>bucketName = ''B'', resultBranch = ''feature/b-123456'', url = Some ''https://github.com/o/r/pull/1'',
                  success = True, manual = Some False, error = None\<rparr>]" by simp
  show ?thesis
    apply (rule exI[of _ rs], rule exI[of _ c], rule exI[of _ bs'], rule exI[of _ l'])
    apply (intro conjI)
        apply (rule r)
       apply (simp add: rs)
      apply (simp add: rs)
     apply (simp add: rs)
    apply (rule exI[of _ stk], rule exI[of _ br], rule exI[of _ base], rule exI[of _ st1])
    using e0 pr apply (simp add: rs)
    done
qed

text \<open>
  Claim C1, as stated, fails: branch creation, staging, commit and push are not inside
  a \<open>try\<close> of their own. With buckets \<open>A\<close> and \<open>B\<close> (\<open>B\<close> independent of \<open>A\<close>) and a
  failing push of \<open>A\<close>'s branch, the error leaves the loop: the run is aborted with the
  push error, no result is recorded for \<open>A\<close>, and no action is run for \<open>B\<close>.
\<close>

theorem push_failure_aborts_counterexample:
  "fst (processAll exGit (exWorld (\<lambda>a. a = GitPush ''feature/a-123456'')) exCfg [exA, exB None] [])
     = Aborted ''Error: Failed to push branch feature/a-123456: Error: failed'' \<and>
   map commandLine (snd (snd (processAll exGit (exWorld (\<lambda>a. a = GitPush ''feature/a-123456'')) exCfg [exA, exB None] [])))
     = [''git branch --show-current'', ''git checkout \"main\"'', ''git pull --ff-only'',
        ''git checkout -b \"feature/a-123456\"'', ''git reset'', ''git add \"a.ts\"'',
        ''fs.writeFileSync /w/.git/COMMIT_EDITMSG_TEMP'',
        ''git commit -F \"/w/.git/COMMIT_EDITMSG_TEMP\"'', ''fs.unlinkSync /w/.git/COMMIT_EDITMSG_TEMP'',
        ''git push -u origin \"feature/a-123456\"'']"
  by (simp add: exEval)

text \<open>
  Claim C2, as stated, fails: \<open>switchToBranch(originalBranch)\<close> follows the loop inside
  the same \<open>try\<close>, with no \<open>finally\<close>. When the commit of the only bucket fails, the
  run ends on the failed commit and never checks out \<open>dev\<close>, the branch that was active.
\<close>

theorem no_restore_counterexample:
  "GitCheckout ''dev'' \<notin> set (snd (snd (processAll exGit (exWorld (\<lambda>a. a = GitCommitFile ''/w/.git/COMMIT_EDITMSG_TEMP'')) exCfg [exA] []))) \<and>
   last (snd (snd (processAll exGit (exWorld (\<lambda>a. a = GitCommitFile ''/w/.git/COMMIT_EDITMSG_TEMP'')) exCfg [exA] [])))
     = GitCommitFile ''/w/.git/COMMIT_EDITMSG_TEMP''"
  by (simp add: exEval)

text \<open>
  Claim C2, amended. With a workspace, whenever the loop has run through all buckets
  (no branch creation, staging, commit or push threw; a failed change-request creation
  is caught and does not count), every bucket has its result and the next and last
  action of the run is the checkout of the branch that was active before the run; the
  run is then reported as aborted exactly when that checkout itself fails.
\<close>

theorem restore_after_loop:
  assumes "workspaceRoot gm \<noteq> []"
      and "run w l GitBranchShowCurrent = Inr out"
      and "processLoop gm w cfg (length bs) \<lparr>rbuckets = bs, results = [], rlog = l @ [GitBranchShowCurrent]\<rparr> = Inr st"
  shows "snd (snd (processAll gm w cfg bs l)) = rlog st @ [GitCheckout (trim out)] \<and>
         length (results st) = length bs \<and>
         (\<exists>m. fst (processAll gm w cfg bs l) = Aborted m) = isl (run w (rlog st) (GitCheckout (trim out)))"
proof -
  from processLoop_inv[OF assms(3)] have "length (results st) = length bs" by simp
  then show ?thesis using assms
    by (cases "run w (rlog st) (GitCheckout (trim out))")
       (simp_all add: processAll_def getCurrentBranch_def execSync_def switchToBranch_def)
qed

theorem restore_after_loop_witness:
  "\<exists>st. processLoop exGit (exWorld allPrsFail) exCfg (length [exA, exB None])
            \<lparr>rbuckets = [exA, exB None], results = [], rlog = [] @ [GitBranchShowCurrent]\<rparr> = Inr st \<and>
        map success (results st) = [False, False] \<and>
        snd (snd (processAll exGit (exWorld allPrsFail) exCfg [exA, exB None] []))
          = rlog st @ [GitCheckout ''dev'']"
proof -
  have h1: "workspaceRoot exGit \<noteq> []" by (simp add: exGit_def)
  have h2: "run (exWorld allPrsFail) [] GitBranchShowCurrent = Inr (''dev'' @ [CHR 0x0A])"
    by (simp add: exWorld_def allPrsFail_def)
  have "\<exists>st. processLoop exGit (exWorld allPrsFail) exCfg (length [exA, exB None])
            \<lparr>rbuckets = [exA, exB None], results = [], rlog = [] @ [GitBranchShowCurrent]\<rparr> = Inr st \<and>
        map success (results st) = [False, False]"
    by (simp add: exEval allPrsFail_def)
  then obtain st where st0: "processLoop exGit (exWorld allPrsFail) exCfg (length [exA, exB None])
            \<lparr>rbuckets = [exA, exB None], results = [], rlog = [] @ [GitBranchShowCurrent]\<rparr> = Inr st \<and>
        map success (results st) = [False, False]" ..
  note st = conjunct1[OF st0] conjunct2[OF st0]
  have t: "trim (''dev'' @ [CHR 0x0A]) = ''dev''" by (simp add: trim_def isWhiteSpace_def)
  from restore_after_loop[OF h1 h2 st(1)] st t show ?thesis by auto
qed

section \<open>The dependency resolver: invariants of the sort\<close>

text \<open>
  The dependency graph the resolver sees, on names: \<open>n\<close> points to \<open>d\<close> when the first
  bucket named \<open>n\<close> has the dependency \<open>d\<close>.
\<close>

definition depRel :: "PRBucket list \<Rightarrow> (string \<times> string) set" where
  "depRel bs = {(n, d). dependencyOf bs n = Some d}"

text \<open>
  The invariant of the sort: \<open>order\<close> lists \<open>visited\<close> without repetition, and the
  dependency of every listed name stands before it.
\<close>

definition goodSort :: "PRBucket list \<Rightarrow> sortState \<Rightarrow> bool" where
  "goodSort bs st \<longleftrightarrow>
     set (sorder st) = visited st \<and> distinct (sorder st) \<and>
     (\<forall>xs m ys d. sorder st = xs @ m # ys \<longrightarrow> dependencyOf bs m = Some d \<longrightarrow> d \<in> set xs)"

lemma snoc_eq_split:
  "zs @ [n] = xs @ m # ys \<Longrightarrow>
   (ys = [] \<and> xs = zs \<and> m = n) \<or> (\<exists>ys'. ys = ys' @ [n] \<and> zs = xs @ m # ys')"
  by (cases ys rule: rev_cases) auto

lemma visit_True_order:
  "visit bs n st = (True, st') \<Longrightarrow>
   \<exists>zs. sorder st' = sorder st @ zs \<and> visited st' = visited st \<union> set zs \<and>
        visiting st' = visiting st \<and> set zs \<inter> visiting st = {} \<and>
        set zs \<inter> visited st = {} \<and> distinct zs \<and> n \<in> visited st' \<and>
        (\<forall>xs m ys d. zs = xs @ m # ys \<longrightarrow> dependencyOf bs m = Some d \<longrightarrow> d \<in> visited st \<union> set xs)"
proof (induction bs n st arbitrary: st' rule: visit.induct)
  case (1 bs n st)
  show ?case
  proof (cases "n \<in> visiting st \<or> n \<in> visited st")
    case True
    with "1.prems" have "st' = st" "n \<in> visited st"
      by (auto simp: visit.simps[of bs n st] split: if_splits)
    then show ?thesis by (intro exI[of _ "[]"]) simp
  next
    case False
    then have nv: "n \<notin> visiting st" "n \<notin> visited st" by auto
    show ?thesis
    proof (cases "dependencyOf bs n")
      case None
      with nv "1.prems" have st': "st' = st\<lparr>visiting := insert n (visiting st) - {n},
                       visited := insert n (visited st), sorder := sorder st @ [n]\<rparr>"
        by (simp add: visit.simps[of bs n st])
      show ?thesis
        apply (intro exI[of _ "[n]"])
        using st' nv None by (auto simp: Cons_eq_append_conv)
    next
      case (Some d)
      obtain r st1 where r: "visit bs d (st\<lparr>visiting := insert n (visiting st)\<rparr>) = (r, st1)"
        by (cases "visit bs d (st\<lparr>visiting := insert n (visiting st)\<rparr>)")
      with nv Some "1.prems" have rT: "r = True"
        and st': "st' = st1\<lparr>visiting := visiting st1 - {n}, visited := insert n (visited st1),
                            sorder := sorder st1 @ [n]\<rparr>"
        by (auto simp: visit.simps[of bs n st] split: bool.splits)
      from "1.IH"[OF nv Some] r rT obtain zs where zs:
        "sorder st1 = sorder st @ zs" "visited st1 = visited st \<union> set zs"
        "visiting st1 = insert n (visiting st)" "set zs \<inter> insert n (visiting st) = {}"
        "set zs \<inter> visited st = {}" "distinct zs" "d \<in> visited st1"
        "\<forall>xs m ys d. zs = xs @ m # ys \<longrightarrow> dependencyOf bs m = Some d \<longrightarrow> d \<in> visited st \<union> set xs"
        by fastforce
      have ord: "\<forall>xs m ys e. zs @ [n] = xs @ m # ys \<longrightarrow> dependencyOf bs m = Some e \<longrightarrow> e \<in> visited st \<union> set xs"
      proof (intro allI impI)
        fix xs m ys e
        assume eq: "zs @ [n] = xs @ m # ys" and dm: "dependencyOf bs m = Some e"
        from snoc_eq_split[OF eq] show "e \<in> visited st \<union> set xs"
        proof
          assume "ys = [] \<and> xs = zs \<and> m = n"
          with dm Some zs(2,7) show ?thesis by auto
        next
          assume "\<exists>ys'. ys = ys' @ [n] \<and> zs = xs @ m # ys'"
          with zs(8) dm show ?thesis by blast
        qed
      qed
      show ?thesis
        apply (intro exI[of _ "zs @ [n]"])
        using st' zs(1-6) nv ord by auto
    qed
  qed
qed

lemma append_eq_split:
  "as @ zs = xs @ m # ys \<Longrightarrow>
   (\<exists>ys'. as = xs @ m # ys' \<and> ys = ys' @ zs) \<or> (\<exists>xs'. xs = as @ xs' \<and> zs = xs' @ m # ys)"
proof (induction as arbitrary: xs)
  case Nil
  then show ?case by simp
next
  case (Cons a as)
  show ?case
  proof (cases xs)
    case Nil
    with Cons.prems show ?thesis by simp
  next
    case (Cons x xs')
    with Cons.prems have "a = x" "as @ zs = xs' @ m # ys" by simp_all
    with Cons.IH[of xs'] Cons show ?thesis by auto
  qed
qed

lemma visit_True_good:
  assumes "visit bs n st = (True, st')" "goodSort bs st"
  shows "goodSort bs st'"
proof -
  from visit_True_order[OF assms(1)] obtain zs where zs:
    "sorder st' = sorder st @ zs" "visited st' = visited st \<union> set zs"
    "set zs \<inter> visited st = {}" "distinct zs"
    "\<forall>xs m ys d. zs = xs @ m # ys \<longrightarrow> dependencyOf bs m = Some d \<longrightarrow> d \<in> visited st \<union> set xs"
    by blast
  from assms(2) have g: "set (sorder st) = visited st" "distinct (sorder st)"
    "\<forall>xs m ys d. sorder st = xs @ m # ys \<longrightarrow> dependencyOf bs m = Some d \<longrightarrow> d \<in> set xs"
    by (auto simp: goodSort_def)
  have "\<forall>xs m ys d. sorder st' = xs @ m # ys \<longrightarrow> dependencyOf bs m = Some d \<longrightarrow> d \<in> set xs"
  proof (intro allI impI)
    fix xs m ys d
    assume eq: "sorder st' = xs @ m # ys" and dm: "dependencyOf bs m = Some d"
    from eq zs(1) have "sorder st @ zs = xs @ m # ys" by simp
    from append_eq_split[OF this] show "d \<in> set xs"
    proof
      assume "\<exists>ys'. sorder st = xs @ m # ys' \<and> ys = ys' @ zs"
      with g(3) dm show ?thesis by blast
    next
      assume "\<exists>xs'. xs = sorder st @ xs' \<and> zs = xs' @ m # ys"
      then obtain xs' where x: "xs = sorder st @ xs'" "zs = xs' @ m # ys" by blast
      with zs(5) dm have "d \<in> visited st \<union> set xs'" by blast
      with x(1) g(1) show ?thesis by auto
    qed
  qed
  moreover have "set (sorder st') = visited st'" using zs(1,2) g(1) by auto
  moreover have "distinct (sorder st')" using zs(1,3,4) g(1,2) by auto
  ultimately show ?thesis by (simp add: goodSort_def)
qed

lemma visitFrom_Inr:
  "visitFrom bs i st = Inr st' \<Longrightarrow> goodSort bs st \<Longrightarrow> \<forall>j<i. name (bs ! j) \<in> visited st \<Longrightarrow>
   goodSort bs st' \<and> (\<forall>j<length bs. name (bs ! j) \<in> visited st')"
proof (induction bs i st rule: visitFrom.induct)
  case (1 bs i st)
  show ?case
  proof (cases "i < length bs")
    case False
    with "1.prems" show ?thesis by (auto simp: visitFrom.simps[of bs i st])
  next
    case i: True
    show ?thesis
    proof (cases "name (bs ! i) \<in> visited st")
      case True
      with i "1.prems" have "visitFrom bs (Suc i) st = Inr st'"
        by (simp add: visitFrom.simps[of bs i st])
      moreover have "\<forall>j<Suc i. name (bs ! j) \<in> visited st"
        using True "1.prems"(3) by (auto simp: less_Suc_eq)
      ultimately show ?thesis using "1.IH"(2)[OF i _] True "1.prems"(2) by blast
    next
      case False
      obtain r st1 where r: "visit bs (name (bs ! i)) st = (r, st1)"
        by (cases "visit bs (name (bs ! i)) st")
      with i False "1.prems"(1) have rT: "r = True" and nx: "visitFrom bs (Suc i) st1 = Inr st'"
        by (auto simp: visitFrom.simps[of bs i st] split: bool.splits)
      from visit_True_good[OF r[unfolded rT] "1.prems"(2)] have g1: "goodSort bs st1" .
      from visit_True[OF r[unfolded rT]] have v: "visited st \<subseteq> visited st1" "name (bs ! i) \<in> visited st1"
        by auto
      have "\<forall>j<Suc i. name (bs ! j) \<in> visited st1"
        using v "1.prems"(3) by (auto simp: less_Suc_eq)
      with "1.IH"(1)[OF i False r[symmetric] _ nx g1] rT show ?thesis by blast
    qed
  qed
qed

lemma visit_False_cycle:
  "visit bs n st = (False, st') \<Longrightarrow> \<forall>m\<in>visiting st. (m, n) \<in> (depRel bs)\<^sup>+ \<Longrightarrow>
   \<not> acyclic (depRel bs)"
proof (induction bs n st arbitrary: st' rule: visit.induct)
  case (1 bs n st)
  show ?case
  proof (cases "n \<in> visiting st")
    case True
    with "1.prems"(2) have "(n, n) \<in> (depRel bs)\<^sup>+" by blast
    then show ?thesis by (auto simp: acyclic_def)
  next
    case nv: False
    with "1.prems"(1) have nd: "n \<notin> visited st"
      by (auto simp: visit.simps[of bs n st] split: if_splits)
    from nv nd "1.prems"(1) obtain d where d: "dependencyOf bs n = Some d"
      by (cases "dependencyOf bs n") (auto simp: visit.simps[of bs n st])
    obtain r st1 where r: "visit bs d (st\<lparr>visiting := insert n (visiting st)\<rparr>) = (r, st1)"
      by (cases "visit bs d (st\<lparr>visiting := insert n (visiting st)\<rparr>)")
    with nv nd d "1.prems"(1) have rF: "r = False"
      by (auto simp: visit.simps[of bs n st] split: bool.splits)
    have e: "(n, d) \<in> depRel bs" using d by (simp add: depRel_def)
    have "\<forall>m\<in>visiting (st\<lparr>visiting := insert n (visiting st)\<rparr>). (m, d) \<in> (depRel bs)\<^sup>+"
      using "1.prems"(2) e by (auto intro: trancl_into_trancl)
    from "1.IH"[OF nv nd d _ this] r rF show ?thesis by simp
  qed
qed

lemma visitFrom_Inl_cycle:
  "visitFrom bs i st = Inl k \<Longrightarrow> visiting st = {} \<Longrightarrow> \<not> acyclic (depRel bs)"
proof (induction bs i st rule: visitFrom.induct)
  case (1 bs i st)
  from "1.prems"(1) have i: "i < length bs"
    by (auto simp: visitFrom.simps[of bs i st] split: if_splits)
  show ?case
  proof (cases "name (bs ! i) \<in> visited st")
    case True
    with i "1.prems" have "visitFrom bs (Suc i) st = Inl k"
      by (simp add: visitFrom.simps[of bs i st])
    with "1.IH"(2)[OF i _] True "1.prems"(2) show ?thesis by blast
  next
    case False
    obtain r st1 where r: "visit bs (name (bs ! i)) st = (r, st1)"
      by (cases "visit bs (name (bs ! i)) st")
    show ?thesis
    proof (cases r)
      case True
      with r have rT: "visit bs (name (bs ! i)) st = (True, st1)" by simp
      from i False rT "1.prems"(1) have "visitFrom bs (Suc i) st1 = Inl k"
        by (simp add: visitFrom.simps[of bs i st])
      moreover from visit_True[OF rT] "1.prems"(2) have "visiting st1 = {}" by simp
      ultimately show ?thesis using "1.IH"(1)[OF i False rT[symmetric]] by blast
    next
      case False
      with r have rF: "visit bs (name (bs ! i)) st = (False, st1)" by simp
      from visit_False_cycle[OF rF] "1.prems"(2) show ?thesis by simp
    qed
  qed
qed

lemma findBucket_findIndex:
  "findBucket bs n = (case findIndex (\<lambda>b. name b = n) bs of None \<Rightarrow> None | Some k \<Rightarrow> Some (bs ! k))"
  unfolding findBucket_def by (induction bs) (auto split: option.splits)

lemma findIndex_names:
  "map name bs = map name cs \<Longrightarrow>
   findIndex (\<lambda>b. name b = n) bs = findIndex (\<lambda>b. name b = n) cs"
proof (induction bs arbitrary: cs)
  case Nil then show ?case by simp
next
  case (Cons b bs)
  then obtain c cs' where "cs = c # cs'" "name b = name c" "map name bs = map name cs'"
    by (cases cs) auto
  with Cons.IH[of cs'] show ?case by simp
qed

lemma dependencyOf_findIndex:
  "dependencyOf bs n = (case findIndex (\<lambda>b. name b = n) bs of None \<Rightarrow> None | Some k \<Rightarrow> dependency (bs ! k))"
  by (simp add: dependencyOf_def findBucket_findIndex split: option.splits)

lemma dependencyOf_cong:
  assumes "map name bs = map name cs" "map dependsOn bs = map dependsOn cs"
  shows "dependencyOf bs n = dependencyOf cs n"
proof (cases "findIndex (\<lambda>b. name b = n) bs")
  case None
  with findIndex_names[OF assms(1), of n] show ?thesis by (simp add: dependencyOf_findIndex)
next
  case (Some k)
  then have k: "k < length bs" by (auto dest: findIndex_Some)
  from assms(2) have "length bs = length cs" by (metis length_map)
  with k assms(2) have "dependsOn (bs ! k) = dependsOn (cs ! k)" by (metis nth_map)
  with Some findIndex_names[OF assms(1), of n] show ?thesis
    by (simp add: dependencyOf_findIndex dependency_def)
qed

lemma depRel_cong:
  "map name bs = map name cs \<Longrightarrow> map dependsOn bs = map dependsOn cs \<Longrightarrow> depRel bs = depRel cs"
  by (simp add: depRel_def dependencyOf_cong[of bs cs])

lemma setOrder_keeps:
  "length (setOrder n i bs) = length bs"
  "map name (setOrder n i bs) = map name bs"
  "map dependsOn (setOrder n i bs) = map dependsOn bs"
proof -
  show "length (setOrder n i bs) = length bs"
    by (simp add: setOrder_def split: option.splits)
  show "map name (setOrder n i bs) = map name bs"
    by (auto simp: setOrder_def map_update list_update_same_conv dest: findIndex_Some split: option.splits)
  show "map dependsOn (setOrder n i bs) = map dependsOn bs"
    by (auto simp: setOrder_def map_update list_update_same_conv dest: findIndex_Some split: option.splits)
qed

lemma assignOrder_keeps:
  "length (assignOrder ns i bs) = length bs \<and>
   map name (assignOrder ns i bs) = map name bs \<and>
   map dependsOn (assignOrder ns i bs) = map dependsOn bs"
  by (induction ns arbitrary: i bs) (simp_all add: setOrder_keeps)

lemma setOrder_other:
  "k < length bs \<Longrightarrow> name (bs ! k) \<noteq> n \<Longrightarrow> setOrder n i bs ! k = bs ! k"
proof (cases "findIndex (\<lambda>b. name b = n) bs")
  case None
  then show ?thesis by (simp add: setOrder_def)
next
  case (Some j)
  assume "name (bs ! k) \<noteq> n"
  moreover from findIndex_Some[OF Some] have "name (bs ! j) = n" by simp
  ultimately have "j \<noteq> k" by auto
  with Some show ?thesis by (simp add: setOrder_def)
qed

lemma assignOrder_other:
  "k < length bs \<Longrightarrow> name (bs ! k) \<notin> set ns \<Longrightarrow> assignOrder ns i bs ! k = bs ! k"
proof (induction ns arbitrary: i bs)
  case Nil then show ?case by simp
next
  case (Cons n ns)
  have "name (setOrder n i bs ! k) = name (bs ! k)"
    using Cons.prems by (simp add: setOrder_other)
  with Cons.IH[of "setOrder n i bs" "Suc i"] Cons.prems show ?case
    by (simp add: setOrder_keeps setOrder_other)
qed

lemma assignOrder_first:
  assumes "distinct ns" "k < length bs" "findIndex (\<lambda>b. name b = name (bs ! k)) bs = Some k"
      and "ns = xs @ name (bs ! k) # ys"
  shows "order (assignOrder ns i bs ! k) = Some (i + length xs)"
  using assms
proof (induction ns arbitrary: i bs xs)
  case Nil then show ?case by simp
next
  case (Cons n ns)
  let ?bs1 = "setOrder n i bs"
  have nm: "map name ?bs1 = map name bs" by (rule setOrder_keeps)
  have len: "length ?bs1 = length bs" by (rule setOrder_keeps)
  show ?case
  proof (cases xs)
    case Nil
    with Cons.prems(4) have n: "n = name (bs ! k)" and ns: "ns = ys" by simp_all
    from Cons.prems(1) n have notin: "name (bs ! k) \<notin> set ns" by simp
    have "?bs1 ! k = (bs ! k)\<lparr>order := Some i\<rparr>"
      using Cons.prems(2,3) n by (simp add: setOrder_def)
    moreover have "assignOrder ns (Suc i) ?bs1 ! k = ?bs1 ! k"
      using Cons.prems(2) notin calculation len by (intro assignOrder_other) simp_all
    ultimately show ?thesis using Nil by simp
  next
    case (Cons x xs')
    with Cons.prems(4) have n: "n = x" and ns: "ns = xs' @ name (bs ! k) # ys" by simp_all
    from Cons.prems(1) n ns have ne: "name (bs ! k) \<noteq> n" by auto
    have same: "?bs1 ! k = bs ! k" using Cons.prems(2) ne by (simp add: setOrder_other)
    have fi: "findIndex (\<lambda>b. name b = name (?bs1 ! k)) ?bs1 = Some k"
      using findIndex_names[OF nm] Cons.prems(3) same by simp
    from Cons.IH[where bs = ?bs1 and xs = xs' and i = "Suc i"] Cons.prems(1,2) fi ns same len
    have "order (assignOrder ns (Suc i) ?bs1 ! k) = Some (Suc i + length xs')" by simp
    with Cons show ?thesis by simp
  qed
qed

lemma distinct_names_findIndex:
  assumes "distinct (map name bs)" "k < length bs"
  shows "findIndex (\<lambda>b. name b = name (bs ! k)) bs = Some k"
proof (cases "findIndex (\<lambda>b. name b = name (bs ! k)) bs")
  case None
  with assms(2) show ?thesis by (auto simp: findIndex_None)
next
  case (Some j)
  then have j: "j < length bs" "name (bs ! j) = name (bs ! k)" by (auto dest: findIndex_Some)
  with assms have "j = k"
    by (metis distinct_conv_nth length_map nth_map)
  with Some show ?thesis by simp
qed

text \<open>The position of the first occurrence of a name in a list.\<close>

definition posIn :: "string \<Rightarrow> string list \<Rightarrow> nat" where
  "posIn n ns = length (takeWhile (\<lambda>x. x \<noteq> n) ns)"

lemma posIn_split: "n \<notin> set xs \<Longrightarrow> posIn n (xs @ n # ys) = length xs"
  by (induction xs) (auto simp: posIn_def)

lemma posIn_before: "d \<in> set xs \<Longrightarrow> posIn d (xs @ ys) < length xs"
proof -
  assume d: "d \<in> set xs"
  then have "takeWhile (\<lambda>x. x \<noteq> d) (xs @ ys) = takeWhile (\<lambda>x. x \<noteq> d) xs"
    by (intro takeWhile_append1[of d]) auto
  moreover have "takeWhile (\<lambda>x. x \<noteq> d) xs \<noteq> xs"
    using d by (auto simp: takeWhile_eq_all_conv)
  then have "length (takeWhile (\<lambda>x. x \<noteq> d) xs) < length xs"
    using length_takeWhile_le[of "\<lambda>x. x \<noteq> d" xs]
    by (metis le_neq_implies_less takeWhile_eq_take take_all order_refl)
  ultimately show ?thesis by (simp add: posIn_def)
qed

text \<open>What a finished sort has assigned: positions in one list of distinct names.\<close>

definition ranked :: "string list \<Rightarrow> PRBucket list \<Rightarrow> bool" where
  "ranked ns bs \<longleftrightarrow>
     distinct ns \<and>
     (\<forall>n d. dependencyOf bs n = Some d \<longrightarrow> posIn d ns < posIn n ns) \<and>
     (\<forall>k<length bs. findIndex (\<lambda>b. name b = name (bs ! k)) bs = Some k \<longrightarrow>
         order (bs ! k) = Some (posIn (name (bs ! k)) ns))"

lemma findBucket_name: "findBucket bs n = Some b \<Longrightarrow> name b = n \<and> b \<in> set bs"
  by (auto simp: findBucket_def find_Some_iff)

lemma sorted_ranked:
  assumes "visitFrom bs 0 emptySort = Inr st"
  shows "ranked (sorder st) (assignOrder (sorder st) 0 bs)"
proof -
  have g0: "goodSort bs emptySort" by (simp add: goodSort_def emptySort_def)
  from visitFrom_Inr[OF assms g0] have g: "goodSort bs st"
    and all: "\<forall>j<length bs. name (bs ! j) \<in> visited st" by auto
  from g have gs: "set (sorder st) = visited st" "distinct (sorder st)"
    "\<forall>xs m ys d. sorder st = xs @ m # ys \<longrightarrow> dependencyOf bs m = Some d \<longrightarrow> d \<in> set xs"
    by (auto simp: goodSort_def)
  let ?ns = "sorder st"
  let ?bs' = "assignOrder ?ns 0 bs"
  have keep: "length ?bs' = length bs" "map name ?bs' = map name bs" "map dependsOn ?bs' = map dependsOn bs"
    using assignOrder_keeps[of ?ns 0 bs] by auto
  have split: "\<exists>xs ys. ?ns = xs @ n # ys \<and> n \<notin> set xs" if "n \<in> set ?ns" for n
    using that by (rule split_list_first)
  have edges: "\<forall>n d. dependencyOf ?bs' n = Some d \<longrightarrow> posIn d ?ns < posIn n ?ns"
  proof (intro allI impI)
    fix n d assume "dependencyOf ?bs' n = Some d"
    then have dn: "dependencyOf bs n = Some d"
      using dependencyOf_cong[OF keep(2) keep(3)] by simp
    then obtain b where "findBucket bs n = Some b"
      by (auto simp: dependencyOf_def split: option.splits)
    from findBucket_name[OF this] obtain j where "j < length bs" "name (bs ! j) = n"
      by (auto simp: in_set_conv_nth)
    with all gs(1) have "n \<in> set ?ns" by auto
    from split[OF this] obtain xs ys where xs: "?ns = xs @ n # ys" "n \<notin> set xs" by blast
    with gs(3) dn have "d \<in> set xs" by blast
    from posIn_before[OF this, of "n # ys"] posIn_split[OF xs(2), of ys] xs(1)
    show "posIn d ?ns < posIn n ?ns" by simp
  qed
  have ords: "\<forall>k<length ?bs'. findIndex (\<lambda>b. name b = name (?bs' ! k)) ?bs' = Some k \<longrightarrow>
         order (?bs' ! k) = Some (posIn (name (?bs' ! k)) ?ns)"
  proof (intro allI impI)
    fix k assume k': "k < length ?bs'" and fi': "findIndex (\<lambda>b. name b = name (?bs' ! k)) ?bs' = Some k"
    from k' keep(1) have k: "k < length bs" by simp
    have nk: "name (?bs' ! k) = name (bs ! k)" using keep(1,2) k by (metis nth_map)
    from fi' nk findIndex_names[OF keep(2)] have fi: "findIndex (\<lambda>b. name b = name (bs ! k)) bs = Some k"
      by simp
    from all k gs(1) have "name (bs ! k) \<in> set ?ns" by auto
    from split[OF this] obtain xs ys where xs: "?ns = xs @ name (bs ! k) # ys" "name (bs ! k) \<notin> set xs"
      by blast
    from assignOrder_first[OF gs(2) k fi xs(1), of 0] posIn_split[OF xs(2), of ys] xs(1) nk
    show "order (?bs' ! k) = Some (posIn (name (?bs' ! k)) ?ns)" by simp
  qed
  from gs(2) edges ords show ?thesis by (simp add: ranked_def)
qed

lemma ranked_acyclic:
  assumes "ranked ns bs" shows "acyclic (depRel bs)"
proof -
  have "depRel bs \<subseteq> (measure (\<lambda>n. posIn n ns))\<inverse>"
    using assms by (auto simp: ranked_def depRel_def)
  moreover have "acyclic ((measure (\<lambda>n. posIn n ns))\<inverse>)"
    by (simp add: wf_acyclic)
  ultimately show ?thesis by (metis acyclic_subset)
qed

lemma ranked_trancl:
  assumes "ranked ns bs" "(n, m) \<in> (depRel bs)\<^sup>+"
  shows "posIn m ns < posIn n ns"
  using assms(2)
proof (induction rule: trancl_induct)
  case (base y)
  with assms(1) show ?case by (auto simp: ranked_def depRel_def)
next
  case (step y z)
  from step.hyps(2) assms(1) have "posIn z ns < posIn y ns" by (auto simp: ranked_def depRel_def)
  with step.IH show ?case by simp
qed

lemma edgeCount_clear_eq:
  assumes "k < length bs" "dependency (bs ! k) \<noteq> None"
  shows "edgeCount (clearDependency k bs) + 1 = edgeCount bs"
proof -
  have "bs = take k bs @ bs ! k # drop (Suc k) bs"
    using assms(1) by (simp add: id_take_nth_drop)
  then have "edgeCount bs = edgeCount (take k bs @ bs ! k # drop (Suc k) bs)" by simp
  also have "\<dots> = edgeCount (take k bs) + 1 + edgeCount (drop (Suc k) bs)"
    using assms(2) by (simp add: edgeCount_def)
  finally have e1: "edgeCount bs = edgeCount (take k bs) + 1 + edgeCount (drop (Suc k) bs)" .
  have "clearDependency k bs = take k bs @ (bs ! k)\<lparr>dependsOn := None\<rparr> # drop (Suc k) bs"
    using assms(1) by (simp add: clearDependency_def upd_conv_take_nth_drop)
  then have "edgeCount (clearDependency k bs) = edgeCount (take k bs) + edgeCount (drop (Suc k) bs)"
    by (simp add: edgeCount_def dependency_def)
  with e1 show ?thesis by simp
qed

lemma edgeCount_cong: "map dependsOn bs = map dependsOn cs \<Longrightarrow> edgeCount bs = edgeCount cs"
proof (induction bs arbitrary: cs)
  case Nil then show ?case by (simp add: edgeCount_def)
next
  case (Cons b bs)
  then obtain c cs' where c: "cs = c # cs'" "dependsOn b = dependsOn c" "map dependsOn bs = map dependsOn cs'"
    by (cases cs) auto
  from Cons.IH[OF c(3)] c show ?case by (simp add: edgeCount_def dependency_def)
qed

text \<open>Everything a call of \<open>updateBucketOrder\<close> guarantees about what it returns.\<close>

definition resolved :: "PRBucket list \<Rightarrow> PRBucket list \<Rightarrow> string list \<Rightarrow> bool" where
  "resolved bs bs' ws \<longleftrightarrow>
     length bs' = length bs \<and> map name bs' = map name bs \<and>
     (\<exists>ns. ranked ns bs') \<and>
     edgeCount bs' + length ws = edgeCount bs \<and>
     (\<forall>k<length bs. dependsOn (bs' ! k) = dependsOn (bs ! k) \<or>
         (dependsOn (bs' ! k) = None \<and> cycleWarning (name (bs ! k)) \<in> set ws)) \<and>
     (ws = [] \<longrightarrow> (\<exists>st. visitFrom bs 0 emptySort = Inr st \<and> ranked (sorder st) bs'))"

lemma updateBucketOrder_resolved:
  "updateBucketOrder bs = (bs', ws) \<Longrightarrow> resolved bs bs' ws"
proof (induction bs arbitrary: bs' ws rule: updateBucketOrder.induct)
  case (1 bs)
  show ?case
  proof (cases "visitFrom bs 0 emptySort")
    case (Inr st)
    with "1.prems" have r: "bs' = assignOrder (sorder st) 0 bs" "ws = []"
      by (simp_all add: updateBucketOrder.simps[of bs])
    from sorted_ranked[OF Inr] r have rk: "ranked (sorder st) bs'" by simp
    have keep: "length bs' = length bs" "map name bs' = map name bs" "map dependsOn bs' = map dependsOn bs"
      using assignOrder_keeps[of "sorder st" 0 bs] r by auto
    have "\<forall>k<length bs. dependsOn (bs' ! k) = dependsOn (bs ! k)"
      using keep(1,3) by (metis nth_map)
    with rk keep r Inr edgeCount_cong[OF keep(3)] show ?thesis
      by (auto simp: resolved_def)
  next
    case (Inl k)
    from visitFrom_Inl[OF Inl] have k: "k < length bs" "dependency (bs ! k) \<noteq> None"
      by (simp_all add: emptySort_def)
    let ?bs1 = "clearDependency k bs"
    obtain bs2 ws1 where u: "updateBucketOrder ?bs1 = (bs2, ws1)"
      by (cases "updateBucketOrder ?bs1")
    with Inl "1.prems" have r: "bs' = bs2" "ws = cycleWarning (name (bs ! k)) # ws1"
      by (simp_all add: updateBucketOrder.simps[of bs])
    from "1.IH"[OF Inl u] have IH: "resolved ?bs1 bs2 ws1" .
    have l1: "length ?bs1 = length bs" by (simp add: clearDependency_def)
    have n1: "map name ?bs1 = map name bs"
      using k(1) by (simp add: clearDependency_def map_update list_update_same_conv)
    have nth1: "j < length bs \<Longrightarrow> name (?bs1 ! j) = name (bs ! j) \<and>
        (if j = k then dependsOn (?bs1 ! j) = None else dependsOn (?bs1 ! j) = dependsOn (bs ! j))" for j
      by (simp add: clearDependency_def nth_list_update)
    have deps: "\<forall>j<length bs. dependsOn (bs' ! j) = dependsOn (bs ! j) \<or>
         (dependsOn (bs' ! j) = None \<and> cycleWarning (name (bs ! j)) \<in> set ws)"
    proof (intro allI impI)
      fix j assume j: "j < length bs"
      from IH j l1 have c: "dependsOn (bs2 ! j) = dependsOn (?bs1 ! j) \<or>
         (dependsOn (bs2 ! j) = None \<and> cycleWarning (name (?bs1 ! j)) \<in> set ws1)"
        by (simp add: resolved_def)
      show "dependsOn (bs' ! j) = dependsOn (bs ! j) \<or>
         (dependsOn (bs' ! j) = None \<and> cycleWarning (name (bs ! j)) \<in> set ws)"
      proof (cases "j = k")
        case True
        with c nth1[OF j] have "dependsOn (bs2 ! j) = None" by auto
        with True r show ?thesis by simp
      next
        case False
        with c nth1[OF j] r show ?thesis by auto
      qed
    qed
    from IH l1 n1 r edgeCount_clear_eq[OF k] deps show ?thesis
      by (auto simp: resolved_def)
  qed
qed

section \<open>The dependency resolver: termination, order and cycles\<close>

lemma edgeCount_le: "edgeCount bs \<le> length bs"
  by (simp add: edgeCount_def)

text \<open>
  Claim C4. For every bucket array, whatever its dependency edges (cyclic ones through
  every bucket included), \<open>updateBucketOrder\<close> returns. It restarts once per warning: at
  most once per bucket, and each restart removes exactly one edge. The graph it leaves is
  acyclic, and the order values it assigns respect it: whenever a bucket depends on an
  existing bucket, both have an order value and the dependency's is smaller.
\<close>

theorem resolver_terminates_acyclic:
  "\<exists>bs' ws. updateBucketOrder bs = (bs', ws) \<and>
      length ws \<le> length bs \<and> edgeCount bs' + length ws = edgeCount bs \<and>
      acyclic (depRel bs') \<and>
      (\<forall>n b d a. findBucket bs' n = Some b \<longrightarrow> dependency b = Some d \<longrightarrow>
          findBucket bs' d = Some a \<longrightarrow>
          (\<exists>i j. order a = Some i \<and> order b = Some j \<and> i < j))"
proof -
  obtain bs' ws where u: "updateBucketOrder bs = (bs', ws)"
    by (cases "updateBucketOrder bs")
  from updateBucketOrder_resolved[OF u] obtain ns where
    e: "edgeCount bs' + length ws = edgeCount bs" and rk: "ranked ns bs'"
    by (auto simp: resolved_def)
  from e edgeCount_le[of bs] have b: "length ws \<le> length bs" by simp
  have ords: "\<forall>n b d a. findBucket bs' n = Some b \<longrightarrow> dependency b = Some d \<longrightarrow>
          findBucket bs' d = Some a \<longrightarrow>
          (\<exists>i j. order a = Some i \<and> order b = Some j \<and> i < j)"
  proof (intro allI impI)
    fix n b d a
    assume fb: "findBucket bs' n = Some b" and db: "dependency b = Some d"
      and fa: "findBucket bs' d = Some a"
    have rank: "order x = Some (posIn m ns)" if "findBucket bs' m = Some x" for m x
    proof -
      from that obtain k where k: "findIndex (\<lambda>b. name b = m) bs' = Some k" "x = bs' ! k"
        by (auto simp: findBucket_findIndex split: option.splits)
      from findIndex_Some[OF k(1)] have "k < length bs'" "name (bs' ! k) = m" by auto
      with rk k show ?thesis by (auto simp: ranked_def)
    qed
    from fb db have "dependencyOf bs' n = Some d" by (simp add: dependencyOf_def)
    with rk have "posIn d ns < posIn n ns" by (auto simp: ranked_def)
    with rank[OF fb] rank[OF fa]
    show "\<exists>i j. order a = Some i \<and> order b = Some j \<and> i < j" by blast
  qed
  from u b e ranked_acyclic[OF rk] ords show ?thesis by blast
qed

theorem resolver_terminates_acyclic_witness:
  "\<exists>bs' ws. updateBucketOrder exCycle = (bs', ws) \<and>
      map (\<lambda>b. (name b, dependsOn b, order b)) bs'
        = [(''A'', None, Some 0), (''B'', Some ''C'', Some 2), (''C'', Some ''A'', Some 1)] \<and>
      ws = [''Circular dependency detected involving A. Dependency removed.''] \<and>
      acyclic (depRel bs')"
proof -
  from resolver_terminates_acyclic[of exCycle] obtain bs' ws where
    u: "updateBucketOrder exCycle = (bs', ws)" and a: "acyclic (depRel bs')" by blast
  have "map (\<lambda>b. (name b, dependsOn b, order b)) (fst (updateBucketOrder exCycle))
        = [(''A'', None, Some 0), (''B'', Some ''C'', Some 2), (''C'', Some ''A'', Some 1)]"
    by (simp add: exCycle_def resolverEval)
  moreover have "snd (updateBucketOrder exCycle)
        = [''Circular dependency detected involving A. Dependency removed.'']"
    by (simp add: exCycle_def resolverEval)
  ultimately show ?thesis using u a by auto
qed

lemma acyclic_no_warning:
  assumes "acyclic (depRel bs)"
  shows "\<exists>st. visitFrom bs 0 emptySort = Inr st \<and>
           updateBucketOrder bs = (assignOrder (sorder st) 0 bs, [])"
proof (cases "visitFrom bs 0 emptySort")
  case (Inl k)
  from visitFrom_Inl_cycle[OF Inl] assms show ?thesis by (simp add: emptySort_def)
next
  case (Inr st)
  then show ?thesis by (simp add: updateBucketOrder.simps[of bs])
qed

lemma no_warning_acyclic:
  assumes "snd (updateBucketOrder bs) = []" shows "acyclic (depRel bs)"
proof -
  obtain bs' where u: "updateBucketOrder bs = (bs', [])"
    using assms by (cases "updateBucketOrder bs") auto
  from updateBucketOrder_resolved[OF u] obtain ns where
    r: "ranked ns bs'" "map name bs' = map name bs" "length bs' = length bs"
       "\<forall>k<length bs. dependsOn (bs' ! k) = dependsOn (bs ! k)"
    by (auto simp: resolved_def)
  have "map dependsOn bs' = map dependsOn bs"
    using r(3,4) by (auto intro: nth_equalityI)
  from depRel_cong[OF r(2) this] ranked_acyclic[OF r(1)] show ?thesis by simp
qed

lemma ordered_listing:
  assumes rk: "ranked ns bs'" and dist: "distinct (map name bs')"
      and i: "i < length bs'" and j: "j < length bs'"
      and dep: "(name (getBucketsInOrder bs' ! j), name (getBucketsInOrder bs' ! i)) \<in> (depRel bs')\<^sup>+"
  shows "i < j"
proof (rule ccontr)
  let ?L = "getBucketsInOrder bs'"
  assume "\<not> i < j"
  then have ji: "j \<le> i" by simp
  have len: "length ?L = length bs'" by (simp add: getBucketsInOrder_def)
  have key: "orderKey b = posIn (name b) ns" if "b \<in> set bs'" for b
  proof -
    from that obtain k where k: "k < length bs'" "bs' ! k = b" by (auto simp: in_set_conv_nth)
    from distinct_names_findIndex[OF dist k(1)] rk k show ?thesis
      by (auto simp: ranked_def orderKey_def)
  qed
  have mem: "?L ! m \<in> set bs'" if "m < length bs'" for m
  proof -
    from that len have "?L ! m \<in> set ?L" by simp
    then show ?thesis by (simp add: getBucketsInOrder_def)
  qed
  from ranked_trancl[OF rk dep] key[OF mem[OF i]] key[OF mem[OF j]]
  have lt: "orderKey (?L ! i) < orderKey (?L ! j)" by simp
  have "sorted (map orderKey ?L)" by (simp add: getBucketsInOrder_def)
  from sorted_nth_mono[OF this ji] i j len have "orderKey (?L ! j) \<le> orderKey (?L ! i)" by simp
  with lt show False by simp
qed

text \<open>
  Claim C5. For buckets with distinct names whose \<open>dependsOn\<close> edges form an acyclic
  graph, order recomputation shows no warning and keeps every name and edge, and
  \<open>getBucketsInOrder\<close> lists all the buckets such that a bucket that (transitively)
  depends on another one stands after it.
\<close>

theorem ordered_listing_topological:
  assumes "distinct (map name bs)" and "acyclic (depRel bs)"
  shows "snd (updateBucketOrder bs) = [] \<and>
         map dependsOn (fst (updateBucketOrder bs)) = map dependsOn bs \<and>
         map name (fst (updateBucketOrder bs)) = map name bs \<and>
         set (getBucketsInOrder (fst (updateBucketOrder bs))) = set (fst (updateBucketOrder bs)) \<and>
         length (getBucketsInOrder (fst (updateBucketOrder bs))) = length bs \<and>
         (\<forall>i j. i < length bs \<longrightarrow> j < length bs \<longrightarrow>
            (name (getBucketsInOrder (fst (updateBucketOrder bs)) ! j),
             name (getBucketsInOrder (fst (updateBucketOrder bs)) ! i)) \<in> (depRel bs)\<^sup>+ \<longrightarrow>
            i < j)"
proof -
  from acyclic_no_warning[OF assms(2)] obtain st where
    st: "visitFrom bs 0 emptySort = Inr st"
    and u: "updateBucketOrder bs = (assignOrder (sorder st) 0 bs, [])" by blast
  let ?bs' = "assignOrder (sorder st) 0 bs"
  have keep: "length ?bs' = length bs" "map name ?bs' = map name bs" "map dependsOn ?bs' = map dependsOn bs"
    using assignOrder_keeps[of "sorder st" 0 bs] by auto
  have rk: "ranked (sorder st) ?bs'" by (rule sorted_ranked[OF st])
  have dist: "distinct (map name ?bs')" using keep(2) assms(1) by simp
  have rel: "depRel ?bs' = depRel bs" by (rule depRel_cong[OF keep(2) keep(3)])
  have "\<forall>i j. i < length bs \<longrightarrow> j < length bs \<longrightarrow>
            (name (getBucketsInOrder ?bs' ! j), name (getBucketsInOrder ?bs' ! i)) \<in> (depRel bs)\<^sup>+ \<longrightarrow>
            i < j"
    using ordered_listing[OF rk dist] keep(1) rel by auto
  moreover have "set (getBucketsInOrder ?bs') = set ?bs'"
    "length (getBucketsInOrder ?bs') = length bs"
    using keep(1) by (simp_all add: getBucketsInOrder_def)
  ultimately show ?thesis using u keep by simp
qed

theorem ordered_listing_topological_witness:
  "distinct (map name exChain) \<and> acyclic (depRel exChain) \<and>
   snd (updateBucketOrder exChain) = [] \<and>
   map name (getBucketsInOrder (fst (updateBucketOrder exChain))) = [''A'', ''B'', ''C''] \<and>
   (''C'', ''A'') \<in> (depRel exChain)\<^sup>+ \<and> (0::nat) < 2"
proof -
  have h1: "distinct (map name exChain)" by (simp add: exChain_def exBucket_def)
  have "snd (updateBucketOrder exChain) = []"
    by (simp add: exChain_def resolverEval)
  then have h2: "acyclic (depRel exChain)" by (rule no_warning_acyclic)
  note t = ordered_listing_topological[OF h1 h2]
  have l: "map name (getBucketsInOrder (fst (updateBucketOrder exChain))) = [''A'', ''B'', ''C'']"
    by (simp add: exChain_def resolverEval getBucketsInOrder_def orderKey_def)
  have "(''C'', ''B'') \<in> depRel exChain" "(''B'', ''A'') \<in> depRel exChain"
    by (simp_all add: depRel_def exChain_def resolverEval)
  then have e: "(''C'', ''A'') \<in> (depRel exChain)\<^sup>+" by (metis trancl.simps)
  from t have c1: "snd (updateBucketOrder exChain) = []" by blast
  from h1 h2 c1 l e show ?thesis by simp
qed




end
